theory Spec2Isabelle
  imports Main "HOL-Library.While_Combinator"
begin

section \<open>Data model\<close>

text \<open>
  The classes of \<^verbatim>\<open>othello.js\<close>. \<^verbatim>\<open>Color\<close> has the two static instances
  \<^verbatim>\<open>Color.BLACK\<close> and \<^verbatim>\<open>Color.WHITE\<close>; a \<^verbatim>\<open>Coordinate\<close> is a
  (row, col) pair of numbers; \<^verbatim>\<open>Board.positions\<close> is an array of rows, each an
  array of cells holding \<^verbatim>\<open>null\<close> or a Color. The static \<^verbatim>\<open>Othello.SIZE\<close> (8 in one
  variant of the program, 26 in the other) is the parameter \<open>n\<close> of every function below.
  Numbers that the code decrements below zero are \<open>int\<close>. Loop variables that the
  source calls \<^verbatim>\<open>row\<close> and \<^verbatim>\<open>col\<close> are written \<open>r\<close> and \<open>c\<close>, the names
  \<open>row\<close> and \<open>col\<close> being the fields of a coordinate.
\<close>

datatype color = BLACK | WHITE

datatype coordinate = Coordinate (row: int) (col: int)

type_synonym positions = "color option list list"

datatype direction =
  Left | LeftUp | Up | RightUp | Right | RightDown | Down | LeftDown

definition DIRECTIONS :: "direction list" where
  "DIRECTIONS = [Left, LeftUp, Up, RightUp, Right, RightDown, Down, LeftDown]"

text \<open>
  \<^verbatim>\<open>this.board.positions[r][c]\<close>, read and written. The model is the program's on
  indices inside the arrays; outside them JavaScript yields \<^verbatim>\<open>undefined\<close>, throws a
  TypeError (no such row) or grows the row on a write, none of which is modelled: the write
  below leaves the board alone there, and the theorems keep to boards of \<open>n\<close> rows of
  \<open>n\<close> cells and coordinates inside them.
\<close>

definition at :: "positions \<Rightarrow> int \<Rightarrow> int \<Rightarrow> color option" where
  "at b r c = b ! nat r ! nat c"

definition put :: "positions \<Rightarrow> int \<Rightarrow> int \<Rightarrow> color \<Rightarrow> positions" where
  "put b r c v =
     (if 0 \<le> r \<and> r < int (length b) \<and> 0 \<le> c \<and> c < int (length (b ! nat r))
      then b[nat r := (b ! nat r)[nat c := Some v]]
      else b)"

text \<open>A closure as \<^verbatim>\<open>checkForClosure\<close> returns it; \<^verbatim>\<open>start\<close> and \<^verbatim>\<open>end\<close> are
  the arrays \<^verbatim>\<open>[col, row]\<close>.\<close>

record closure =
  cl_direction :: direction
  cl_start :: "int \<times> int"
  cl_end :: "int \<times> int"
  cl_flipCount :: nat

section \<open>The direction scan: checkForClosure\<close>

text \<open>
  The local variable \<^verbatim>\<open>val\<close> starts as the number 0 and then holds what was read from
  the board. The loop's variables form the record \<open>scan\<close>.
\<close>

datatype jsval = Zero | Cell "color option"

record scan =
  val :: jsval
  checkCol :: int
  checkRow :: int
  flipCount :: nat

text \<open>The three lines each case of the switch repeats:
  \<^verbatim>\<open>val = positions[r][c]; if (val !== color && val !== null) flipCount++\<close>.\<close>

definition look :: "positions \<Rightarrow> color \<Rightarrow> int \<Rightarrow> int \<Rightarrow> scan \<Rightarrow> scan" where
  "look b color r c s =
     s\<lparr>val := Cell (at b r c),
       flipCount := (if at b r c \<noteq> Some color \<and> at b r c \<noteq> None
                     then flipCount s + 1 else flipCount s)\<rparr>"

definition cfc_cond :: "int \<Rightarrow> color \<Rightarrow> scan \<Rightarrow> bool" where
  "cfc_cond n color s \<longleftrightarrow>
     val s \<noteq> Cell None \<and> val s \<noteq> Cell (Some color) \<and> checkCol s \<ge> 0 \<and> checkRow s \<ge> 0
     \<and> checkCol s < n \<and> checkRow s < n"

text \<open>One pass through the switch. The \<^verbatim>\<open>default\<close> case is not reached: a direction
  is one of the eight of \<^verbatim>\<open>Othello.DIRECTIONS\<close>.\<close>

fun cfc_body :: "int \<Rightarrow> positions \<Rightarrow> color \<Rightarrow> direction \<Rightarrow> scan \<Rightarrow> scan" where
  "cfc_body n b color Left s =
     (let s1 = (if checkCol s - 1 \<ge> 0 then look b color (checkRow s) (checkCol s - 1) s else s)
      in s1\<lparr>checkCol := checkCol s1 - 1\<rparr>)"
| "cfc_body n b color LeftUp s =
     (let s1 = (if checkCol s - 1 \<ge> 0 \<and> checkRow s - 1 \<ge> 0
                then look b color (checkRow s - 1) (checkCol s - 1) s else s)
      in s1\<lparr>checkCol := checkCol s1 - 1, checkRow := checkRow s1 - 1\<rparr>)"
| "cfc_body n b color Up s =
     (let s1 = (if checkRow s - 1 \<ge> 0 then look b color (checkRow s - 1) (checkCol s) s else s)
      in s1\<lparr>checkRow := checkRow s1 - 1\<rparr>)"
| "cfc_body n b color RightUp s =
     (let s1 = (if checkCol s + 1 < n \<and> checkRow s - 1 \<ge> 0
                then look b color (checkRow s - 1) (checkCol s + 1) s else s)
      in s1\<lparr>checkCol := checkCol s1 + 1, checkRow := checkRow s1 - 1\<rparr>)"
| "cfc_body n b color Right s =
     (let s1 = (if checkCol s + 1 < n then look b color (checkRow s) (checkCol s + 1) s else s)
      in s1\<lparr>checkCol := checkCol s1 + 1\<rparr>)"
| "cfc_body n b color RightDown s =
     (let s1 = (if checkCol s + 1 < n \<and> checkRow s + 1 < n
                then look b color (checkRow s + 1) (checkCol s + 1) s else s)
      in s1\<lparr>checkCol := checkCol s1 + 1, checkRow := checkRow s1 + 1\<rparr>)"
| "cfc_body n b color Down s =
     (let s1 = (if checkRow s + 1 < n then look b color (checkRow s + 1) (checkCol s) s else s)
      in s1\<lparr>checkRow := checkRow s1 + 1\<rparr>)"
| "cfc_body n b color LeftDown s =
     (let s1 = (if checkCol s - 1 \<ge> 0 \<and> checkRow s + 1 < n
                then look b color (checkRow s + 1) (checkCol s - 1) s else s)
      in s1\<lparr>checkCol := checkCol s1 - 1, checkRow := checkRow s1 + 1\<rparr>)"

text \<open>How far the cursor still is from the edge it walks to.\<close>

fun cfc_dist :: "int \<Rightarrow> direction \<Rightarrow> scan \<Rightarrow> nat" where
  "cfc_dist n Left s = nat (checkCol s + 1)"
| "cfc_dist n LeftUp s = nat (checkCol s + 1)"
| "cfc_dist n Up s = nat (checkRow s + 1)"
| "cfc_dist n RightUp s = nat (n - checkCol s)"
| "cfc_dist n Right s = nat (n - checkCol s)"
| "cfc_dist n RightDown s = nat (n - checkCol s)"
| "cfc_dist n Down s = nat (n - checkRow s)"
| "cfc_dist n LeftDown s = nat (checkCol s + 1)"

function cfc_loop :: "int \<Rightarrow> positions \<Rightarrow> color \<Rightarrow> direction \<Rightarrow> scan \<Rightarrow> scan" where
  "cfc_loop n b color d s =
     (if cfc_cond n color s then cfc_loop n b color d (cfc_body n b color d s) else s)"
  by pat_completeness auto
termination
proof (relation "measure (\<lambda>(n, b, color, d, s). cfc_dist n d s)")
  show "wf (measure (\<lambda>(n, b, color, d, s). cfc_dist n d s))" by simp
next
  fix n :: int and b :: positions and color d s
  assume "cfc_cond n color s"
  then show "((n, b, color, d, cfc_body n b color d s), (n, b, color, d, s))
      \<in> measure (\<lambda>(n, b, color, d, s). cfc_dist n d s)"
    by (cases d) (auto simp: cfc_cond_def look_def Let_def)
qed

declare cfc_loop.simps [simp del]

definition checkForClosure ::
  "int \<Rightarrow> positions \<Rightarrow> color \<Rightarrow> coordinate \<Rightarrow> direction \<Rightarrow> closure option" where
  "checkForClosure n b color coords d =
     (let s = cfc_loop n b color d
                \<lparr>val = Zero, checkCol = col coords, checkRow = row coords, flipCount = 0\<rparr>
      in if val s = Cell (Some color)
         then (if flipCount s > 0
               then Some \<lparr>cl_direction = d, cl_start = (col coords, row coords),
                          cl_end = (checkCol s, checkRow s), cl_flipCount = flipCount s\<rparr>
               else None)
         else None)"

section \<open>Closures of a move: getClosures, validateMove\<close>

text \<open>The loop over \<^verbatim>\<open>Othello.DIRECTIONS\<close>, pushing each closure found.\<close>

fun getClosures_loop ::
  "int \<Rightarrow> positions \<Rightarrow> color \<Rightarrow> coordinate \<Rightarrow> direction list \<Rightarrow> closure list \<Rightarrow> closure list" where
  "getClosures_loop n b color coords [] closures = closures"
| "getClosures_loop n b color coords (d # ds) closures =
     getClosures_loop n b color coords ds
       (case checkForClosure n b color coords d of
          None \<Rightarrow> closures
        | Some closure \<Rightarrow> closures @ [closure])"

definition getClosures :: "int \<Rightarrow> positions \<Rightarrow> color \<Rightarrow> coordinate \<Rightarrow> closure list" where
  "getClosures n b color coords = getClosures_loop n b color coords DIRECTIONS []"

text \<open>\<^verbatim>\<open>validateMove\<close> returns \<^verbatim>\<open>false\<close> (here \<open>None\<close>) or the closures.\<close>

definition validateMove ::
  "int \<Rightarrow> positions \<Rightarrow> coordinate \<Rightarrow> color \<Rightarrow> closure list option" where
  "validateMove n b coords color =
     (if at b (row coords) (col coords) \<noteq> None then None
      else let closures = getClosures n b color coords
           in if length closures = 0 then None else Some closures)"

section \<open>Flipping: flipPieces\<close>

text \<open>One loop for each case of the switch, each writing \<^verbatim>\<open>color\<close> from the start
  to the end, both included.\<close>

function flip_left :: "positions \<Rightarrow> int \<Rightarrow> int \<Rightarrow> int \<Rightarrow> color \<Rightarrow> positions" where
  "flip_left b startRow c endCol color =
     (if c \<ge> endCol then flip_left (put b startRow c color) startRow (c - 1) endCol color else b)"
  by pat_completeness auto
termination
  by (relation "measure (\<lambda>(b, startRow, c, endCol, color). nat (c - endCol + 1))") auto

function flip_left_up ::
  "positions \<Rightarrow> int \<Rightarrow> int \<Rightarrow> int \<Rightarrow> int \<Rightarrow> color \<Rightarrow> positions" where
  "flip_left_up b c r endCol endRow color =
     (if c \<ge> endCol \<and> r \<ge> endRow
      then flip_left_up (put b r c color) (c - 1) (r - 1) endCol endRow color else b)"
  by pat_completeness auto
termination
  by (relation "measure (\<lambda>(b, c, r, endCol, endRow, color). nat (c - endCol + 1))") auto

function flip_up :: "positions \<Rightarrow> int \<Rightarrow> int \<Rightarrow> int \<Rightarrow> color \<Rightarrow> positions" where
  "flip_up b startCol r endRow color =
     (if r \<ge> endRow then flip_up (put b r startCol color) startCol (r - 1) endRow color else b)"
  by pat_completeness auto
termination
  by (relation "measure (\<lambda>(b, startCol, r, endRow, color). nat (r - endRow + 1))") auto

function flip_right_up ::
  "positions \<Rightarrow> int \<Rightarrow> int \<Rightarrow> int \<Rightarrow> int \<Rightarrow> color \<Rightarrow> positions" where
  "flip_right_up b c r endCol endRow color =
     (if c \<le> endCol \<and> r \<ge> endRow
      then flip_right_up (put b r c color) (c + 1) (r - 1) endCol endRow color else b)"
  by pat_completeness auto
termination
  by (relation "measure (\<lambda>(b, c, r, endCol, endRow, color). nat (endCol - c + 1))") auto

function flip_right :: "positions \<Rightarrow> int \<Rightarrow> int \<Rightarrow> int \<Rightarrow> color \<Rightarrow> positions" where
  "flip_right b startRow c endCol color =
     (if c \<le> endCol then flip_right (put b startRow c color) startRow (c + 1) endCol color else b)"
  by pat_completeness auto
termination
  by (relation "measure (\<lambda>(b, startRow, c, endCol, color). nat (endCol - c + 1))") auto

function flip_right_down ::
  "positions \<Rightarrow> int \<Rightarrow> int \<Rightarrow> int \<Rightarrow> int \<Rightarrow> color \<Rightarrow> positions" where
  "flip_right_down b c r endCol endRow color =
     (if c \<le> endCol \<and> r \<le> endRow
      then flip_right_down (put b r c color) (c + 1) (r + 1) endCol endRow color else b)"
  by pat_completeness auto
termination
  by (relation "measure (\<lambda>(b, c, r, endCol, endRow, color). nat (endCol - c + 1))") auto

function flip_down :: "positions \<Rightarrow> int \<Rightarrow> int \<Rightarrow> int \<Rightarrow> color \<Rightarrow> positions" where
  "flip_down b startCol r endRow color =
     (if r \<le> endRow then flip_down (put b r startCol color) startCol (r + 1) endRow color else b)"
  by pat_completeness auto
termination
  by (relation "measure (\<lambda>(b, startCol, r, endRow, color). nat (endRow - r + 1))") auto

function flip_left_down ::
  "positions \<Rightarrow> int \<Rightarrow> int \<Rightarrow> int \<Rightarrow> int \<Rightarrow> color \<Rightarrow> positions" where
  "flip_left_down b c r endCol endRow color =
     (if c \<ge> endCol \<and> r \<le> endRow
      then flip_left_down (put b r c color) (c - 1) (r + 1) endCol endRow color else b)"
  by pat_completeness auto
termination
  by (relation "measure (\<lambda>(b, c, r, endCol, endRow, color). nat (c - endCol + 1))") auto

declare flip_left.simps [simp del] flip_left_up.simps [simp del] flip_up.simps [simp del]
  flip_right_up.simps [simp del] flip_right.simps [simp del] flip_right_down.simps [simp del]
  flip_down.simps [simp del] flip_left_down.simps [simp del]

fun flipPieces ::
  "positions \<Rightarrow> int \<times> int \<Rightarrow> int \<times> int \<Rightarrow> direction \<Rightarrow> color \<Rightarrow> positions" where
  "flipPieces b (startCol, startRow) (endCol, endRow) Left color =
     flip_left b startRow startCol endCol color"
| "flipPieces b (startCol, startRow) (endCol, endRow) LeftUp color =
     flip_left_up b startCol startRow endCol endRow color"
| "flipPieces b (startCol, startRow) (endCol, endRow) Up color =
     flip_up b startCol startRow endRow color"
| "flipPieces b (startCol, startRow) (endCol, endRow) RightUp color =
     flip_right_up b startCol startRow endCol endRow color"
| "flipPieces b (startCol, startRow) (endCol, endRow) Right color =
     flip_right b startRow startCol endCol color"
| "flipPieces b (startCol, startRow) (endCol, endRow) RightDown color =
     flip_right_down b startCol startRow endCol endRow color"
| "flipPieces b (startCol, startRow) (endCol, endRow) Down color =
     flip_down b startCol startRow endRow color"
| "flipPieces b (startCol, startRow) (endCol, endRow) LeftDown color =
     flip_left_down b startCol startRow endCol endRow color"

section \<open>Scores and legal moves\<close>

record scores =
  black :: nat
  white :: nat

function getScores_cols :: "int \<Rightarrow> positions \<Rightarrow> int \<Rightarrow> int \<Rightarrow> scores \<Rightarrow> scores" where
  "getScores_cols n b r c sc =
     (if c < n
      then getScores_cols n b r (c + 1)
             (if at b r c = Some BLACK then sc\<lparr>black := black sc + 1\<rparr>
              else if at b r c = Some WHITE then sc\<lparr>white := white sc + 1\<rparr>
              else sc)
      else sc)"
  by pat_completeness auto
termination
  by (relation "measure (\<lambda>(n, b, r, c, sc). nat (n - c))") auto

function getScores_rows :: "int \<Rightarrow> positions \<Rightarrow> int \<Rightarrow> scores \<Rightarrow> scores" where
  "getScores_rows n b r sc =
     (if r < n then getScores_rows n b (r + 1) (getScores_cols n b r 0 sc) else sc)"
  by pat_completeness auto
termination
  by (relation "measure (\<lambda>(n, b, r, sc). nat (n - r))") auto

definition getScores :: "int \<Rightarrow> positions \<Rightarrow> scores" where
  "getScores n b = getScores_rows n b 0 \<lparr>black = 0, white = 0\<rparr>"

text \<open>\<^verbatim>\<open>playerHasAnyValidMoves\<close>: the two nested loops, leaving with \<^verbatim>\<open>true\<close> at the
  first cell where \<^verbatim>\<open>validateMove\<close> does not return \<^verbatim>\<open>false\<close>.\<close>

function hasAny_cols :: "int \<Rightarrow> positions \<Rightarrow> color \<Rightarrow> int \<Rightarrow> int \<Rightarrow> bool" where
  "hasAny_cols n b color r c =
     (if c < n
      then (if validateMove n b (Coordinate r c) color \<noteq> None then True
            else hasAny_cols n b color r (c + 1))
      else False)"
  by pat_completeness auto
termination
  by (relation "measure (\<lambda>(n, b, color, r, c). nat (n - c))") auto

function hasAny_rows :: "int \<Rightarrow> positions \<Rightarrow> color \<Rightarrow> int \<Rightarrow> bool" where
  "hasAny_rows n b color r =
     (if r < n
      then (if hasAny_cols n b color r 0 then True else hasAny_rows n b color (r + 1))
      else False)"
  by pat_completeness auto
termination
  by (relation "measure (\<lambda>(n, b, color, r). nat (n - r))") auto

definition playerHasAnyValidMoves :: "int \<Rightarrow> positions \<Rightarrow> color \<Rightarrow> bool" where
  "playerHasAnyValidMoves n b color = hasAny_rows n b color 0"

text \<open>\<^verbatim>\<open>getAllValidMoves\<close>: the same two loops, pushing every such coordinate.\<close>

function getAll_cols ::
  "int \<Rightarrow> positions \<Rightarrow> color \<Rightarrow> int \<Rightarrow> int \<Rightarrow> coordinate list \<Rightarrow> coordinate list" where
  "getAll_cols n b color r c validMoves =
     (if c < n
      then getAll_cols n b color r (c + 1)
             (if validateMove n b (Coordinate r c) color \<noteq> None
              then validMoves @ [Coordinate r c] else validMoves)
      else validMoves)"
  by pat_completeness auto
termination
  by (relation "measure (\<lambda>(n, b, color, r, c, validMoves). nat (n - c))") auto

function getAll_rows ::
  "int \<Rightarrow> positions \<Rightarrow> color \<Rightarrow> int \<Rightarrow> coordinate list \<Rightarrow> coordinate list" where
  "getAll_rows n b color r validMoves =
     (if r < n then getAll_rows n b color (r + 1) (getAll_cols n b color r 0 validMoves)
      else validMoves)"
  by pat_completeness auto
termination
  by (relation "measure (\<lambda>(n, b, color, r, validMoves). nat (n - r))") auto

definition getAllValidMoves :: "int \<Rightarrow> positions \<Rightarrow> color \<Rightarrow> coordinate list" where
  "getAllValidMoves n b color = getAll_rows n b color 0 []"

declare getScores_cols.simps [simp del] getScores_rows.simps [simp del]
  hasAny_cols.simps [simp del] hasAny_rows.simps [simp del]
  getAll_cols.simps [simp del] getAll_rows.simps [simp del]

section \<open>One turn of play\<close>

text \<open>
  The state \<^verbatim>\<open>play\<close> works on: the board, the scores and the player to move. \<open>play_move\<close>
  is the body of its loop from \<^verbatim>\<open>validateMove(move, this.curPlayer)\<close> on, for a move
  already read; the result says how the pass through the loop ended: with
  \<^verbatim>\<open>Invalid move. Try again.\<close> and \<^verbatim>\<open>continue\<close>, with the turn passed on, with
  \<^verbatim>\<open>No valid moves for\<close> the next player, or with the game's end (\<^verbatim>\<open>break\<close>) and what
  was announced.
\<close>

record game =
  board :: positions
  scores :: scores
  curPlayer :: color

datatype winner = Tie_game | Black_wins | White_wins

datatype outcome = Invalid_move | Turn_passed | No_valid_moves color | Game_over winner

definition other :: "color \<Rightarrow> color" where
  "other color = (if color = BLACK then WHITE else BLACK)"

fun flip_closures :: "positions \<Rightarrow> closure list \<Rightarrow> color \<Rightarrow> positions" where
  "flip_closures b [] color = b"
| "flip_closures b (closure # closures) color =
     flip_closures (flipPieces b (cl_start closure) (cl_end closure) (cl_direction closure) color)
       closures color"

definition announce :: "scores \<Rightarrow> winner" where
  "announce sc =
     (if black sc = white sc then Tie_game
      else if black sc > white sc then Black_wins
      else White_wins)"

definition play_move :: "int \<Rightarrow> game \<Rightarrow> coordinate \<Rightarrow> outcome \<times> game" where
  "play_move n g move =
     (case validateMove n (board g) move (curPlayer g) of
        None \<Rightarrow> (Invalid_move, g)
      | Some closures \<Rightarrow>
          let b1 = put (board g) (row move) (col move) (curPlayer g);
              b2 = flip_closures b1 closures (curPlayer g);
              g1 = g\<lparr>board := b2, scores := getScores n b2, curPlayer := other (curPlayer g)\<rparr>
          in if \<not> playerHasAnyValidMoves n (board g1) (curPlayer g1)
             then let g2 = g1\<lparr>curPlayer := other (curPlayer g1)\<rparr>
                  in if \<not> playerHasAnyValidMoves n (board g2) (curPlayer g2)
                     then (Game_over (announce (scores g2)), g2)
                     else (No_valid_moves (curPlayer g1), g2)
             else (Turn_passed, g1))"

section \<open>Construction\<close>

text \<open>
  What the program throws. \<^verbatim>\<open>new Array(size)\<close> throws a RangeError for a length below
  zero; the \<^verbatim>\<open>Board\<close> constructor fills \<open>size\<close> rows of \<open>size\<close> cells with
  \<^verbatim>\<open>null\<close>. The \<^verbatim>\<open>Othello\<close> constructor checks \<^verbatim>\<open>Othello.SIZE > 26\<close> and builds the
  board; the static \<^verbatim>\<open>SIZE\<close> is its parameter here.
\<close>

datatype exception =
  BoardOutOfBoundsException string
| CoordinateParseException string
| RangeError
| TypeError

definition Board_constructor :: "int \<Rightarrow> exception + positions" where
  "Board_constructor sz =
     (if sz < 0 then Inl RangeError
      else Inr (replicate (nat sz) (replicate (nat sz) None)))"

definition Othello_constructor :: "int \<Rightarrow> exception + positions" where
  "Othello_constructor SIZE =
     (if SIZE > 26 then Inl (BoardOutOfBoundsException ''Max board size is 26'')
      else Board_constructor SIZE)"

section \<open>Reading a coordinate: parseCoordinate\<close>

text \<open>
  \<^verbatim>\<open>parseInt\<close> on a string, as \<^verbatim>\<open>parseCoordinate\<close> calls it (no radix given): leading
  white space is skipped, then an optional sign, then a prefix \<^verbatim>\<open>0x\<close> or \<^verbatim>\<open>0X\<close> selects
  radix 16, otherwise 10; the longest run of digits of that radix is read, and what follows
  is ignored. With no digit the result is \<^verbatim>\<open>NaN\<close>, here \<open>None\<close>. Strings are lists of
  8-bit characters, so white space is the ASCII white space only.
\<close>

definition is_space :: "char \<Rightarrow> bool" where
  "is_space ch \<longleftrightarrow> (of_char ch :: nat) \<in> {9, 10, 11, 12, 13, 32}"

definition digit_val :: "char \<Rightarrow> nat" where
  "digit_val ch =
     (let k = (of_char ch :: nat)
      in if 48 \<le> k \<and> k \<le> 57 then k - 48
         else if 97 \<le> k \<and> k \<le> 122 then k - 87
         else if 65 \<le> k \<and> k \<le> 90 then k - 55
         else 36)"

definition parseInt :: "string \<Rightarrow> int option" where
  "parseInt input =
     (let s1 = dropWhile is_space input;
          negative = (s1 \<noteq> [] \<and> hd s1 = CHR ''-'');
          s2 = (if s1 \<noteq> [] \<and> (hd s1 = CHR ''+'' \<or> hd s1 = CHR ''-'') then tl s1 else s1);
          hex = (take 2 s2 = ''0x'' \<or> take 2 s2 = ''0X'');
          radix = (if hex then 16 else 10);
          s3 = (if hex then drop 2 s2 else s2);
          ds = takeWhile (\<lambda>ch. digit_val ch < radix) s3
      in if ds = [] then None
         else Some ((if negative then - 1 else 1)
                    * int (foldl (\<lambda>acc ch. acc * radix + digit_val ch) 0 ds)))"

text \<open>
  What \<^verbatim>\<open>parseCoordinate\<close> returns: a \<^verbatim>\<open>Coordinate\<close> whose row is a number or
  \<^verbatim>\<open>NaN\<close> (\<open>None\<close>): a comparison with \<^verbatim>\<open>NaN\<close> is false, so \<^verbatim>\<open>row < 0\<close> lets it
  through.
\<close>

record parsed =
  p_row :: "int option"
  p_col :: int

definition parseCoordinate :: "int \<Rightarrow> string \<Rightarrow> exception + parsed" where
  "parseCoordinate n input =
     (if length input < 2 \<or> length input > 3
      then Inl (CoordinateParseException ''Input must be length 2 or 3'')
      else let c = int (of_char (hd (take 1 input))) - int (of_char CHR ''a'')
           in if c < 0 \<or> c > n - 1
              then Inl (CoordinateParseException ''Column out of bounds'')
              else let r = map_option (\<lambda>v. v - 1) (parseInt (drop 1 input))
                   in if (case r of None \<Rightarrow> False | Some v \<Rightarrow> v < 0) \<or> c > n - 1
                      then Inl (CoordinateParseException ''Row out of bounds'')
                      else Inr \<lparr>p_row = r, p_col = c\<rparr>)"

section \<open>The automatic move\<close>

text \<open>
  The branch of \<^verbatim>\<open>play\<close> for the input \<^verbatim>\<open>-\<close> and for autopilot. \<^verbatim>\<open>validMoves\<close> holds
  \<^verbatim>\<open>Coordinate\<close> objects, which have no \<^verbatim>\<open>flipCount\<close>: reading it gives
  \<^verbatim>\<open>undefined\<close> (\<open>None\<close>); \<^verbatim>\<open>undefined > undefined\<close> is false and
  \<^verbatim>\<open>undefined === undefined\<close> is true. \<open>rnd\<close> is the index drawn,
  \<^verbatim>\<open>Math.floor(Math.random() * bestMoves.length)\<close>. With no valid move \<^verbatim>\<open>bestMove\<close> is
  \<^verbatim>\<open>undefined\<close> and reading its row throws a TypeError.
\<close>

definition flipCount_of :: "coordinate \<Rightarrow> nat option" where
  "flipCount_of m = None"

definition js_gt :: "nat option \<Rightarrow> nat option \<Rightarrow> bool" where
  "js_gt x y = (case (x, y) of (Some v, Some w) \<Rightarrow> v > w | _ \<Rightarrow> False)"

fun bestMoves_loop :: "coordinate list \<Rightarrow> coordinate \<Rightarrow> coordinate list \<Rightarrow> coordinate list" where
  "bestMoves_loop [] bestMove bestMoves = bestMoves"
| "bestMoves_loop (m # validMoves) bestMove bestMoves =
     (if js_gt (flipCount_of m) (flipCount_of bestMove)
      then bestMoves_loop validMoves m (bestMoves @ [m])
      else if flipCount_of m = flipCount_of bestMove
      then bestMoves_loop validMoves bestMove (bestMoves @ [m])
      else bestMoves_loop validMoves bestMove bestMoves)"

definition autoMove :: "int \<Rightarrow> positions \<Rightarrow> color \<Rightarrow> nat \<Rightarrow> exception + coordinate" where
  "autoMove n b color rnd =
     (case getAllValidMoves n b color of
        [] \<Rightarrow> Inl TypeError
      | m # validMoves \<Rightarrow>
          let bestMoves = bestMoves_loop (m # validMoves) m [m];
              bestMove = bestMoves ! rnd
          in Inr (Coordinate (row bestMove) (col bestMove)))"

section \<open>The vocabulary of the properties\<close>

text \<open>
  The unit step of each direction, as (column, row) differences; the cells inside a board of
  size \<open>n\<close>; and a board as the \<^verbatim>\<open>Board\<close> constructor builds it: \<open>n\<close> rows of
  \<open>n\<close> cells. \<open>run n b color r c d k\<close> says that, walking from (r, c) in direction
  \<open>d\<close>, the next \<open>k\<close> cells are on the board and hold the other color, and the cell
  after them is on the board and holds \<open>color\<close>.
\<close>

fun dcol :: "direction \<Rightarrow> int" where
  "dcol Left = -1" | "dcol LeftUp = -1" | "dcol Up = 0" | "dcol RightUp = 1"
| "dcol Right = 1" | "dcol RightDown = 1" | "dcol Down = 0" | "dcol LeftDown = -1"

fun drow :: "direction \<Rightarrow> int" where
  "drow Left = 0" | "drow LeftUp = -1" | "drow Up = -1" | "drow RightUp = -1"
| "drow Right = 0" | "drow RightDown = 1" | "drow Down = 1" | "drow LeftDown = 1"

definition inside :: "int \<Rightarrow> int \<Rightarrow> int \<Rightarrow> bool" where
  "inside n r c \<longleftrightarrow> 0 \<le> r \<and> r < n \<and> 0 \<le> c \<and> c < n"

definition wf_board :: "int \<Rightarrow> positions \<Rightarrow> bool" where
  "wf_board n b \<longleftrightarrow> int (length b) = n \<and> (\<forall>cells\<in>set b. int (length cells) = n)"

definition run :: "int \<Rightarrow> positions \<Rightarrow> color \<Rightarrow> int \<Rightarrow> int \<Rightarrow> direction \<Rightarrow> nat \<Rightarrow> bool" where
  "run n b color r c d k \<longleftrightarrow>
     (\<forall>i\<in>{1..k}. inside n (r + int i * drow d) (c + int i * dcol d)
        \<and> at b (r + int i * drow d) (c + int i * dcol d) = Some (other color))
     \<and> inside n (r + (int k + 1) * drow d) (c + (int k + 1) * dcol d)
     \<and> at b (r + (int k + 1) * drow d) (c + (int k + 1) * dcol d) = Some color"

definition closure_of :: "coordinate \<Rightarrow> direction \<Rightarrow> nat \<Rightarrow> closure" where
  "closure_of coords d k =
     \<lparr>cl_direction = d, cl_start = (col coords, row coords),
      cl_end = (col coords + (int k + 1) * dcol d, row coords + (int k + 1) * drow d),
      cl_flipCount = k\<rparr>"

definition closes :: "int \<Rightarrow> positions \<Rightarrow> color \<Rightarrow> coordinate \<Rightarrow> direction \<Rightarrow> bool" where
  "closes n b color coords d \<longleftrightarrow>
     (\<exists>k\<ge>1.
        (\<forall>i\<in>{1..k}. inside n (row coords + int i * drow d) (col coords + int i * dcol d)
           \<and> at b (row coords + int i * drow d) (col coords + int i * dcol d) = Some (other color))
        \<and> inside n (row coords + (int k + 1) * drow d) (col coords + (int k + 1) * dcol d)
        \<and> at b (row coords + (int k + 1) * drow d) (col coords + (int k + 1) * dcol d)
            = Some color)"

text \<open>\<open>valid_at n b color r c\<close>: \<^verbatim>\<open>validateMove(new Coordinate(r, c), color) !== false\<close>.\<close>

definition valid_at :: "int \<Rightarrow> positions \<Rightarrow> color \<Rightarrow> int \<Rightarrow> int \<Rightarrow> bool" where
  "valid_at n b color r c \<longleftrightarrow> validateMove n b (Coordinate r c) color \<noteq> None"

text \<open>A color has a legal move on the board when \<^verbatim>\<open>validateMove\<close> accepts some cell of
  the board for it.\<close>

definition has_legal_move :: "int \<Rightarrow> positions \<Rightarrow> color \<Rightarrow> bool" where
  "has_legal_move n b color \<longleftrightarrow>
     (\<exists>r c. inside n r c \<and> validateMove n b (Coordinate r c) color \<noteq> None)"

text \<open>\<open>paint b color r c d m\<close> writes \<open>color\<close> to \<open>m\<close> cells, from (r, c) on in direction
  \<open>d\<close>; each loop of \<^verbatim>\<open>flipPieces\<close> is such a walk.\<close>

fun paint :: "positions \<Rightarrow> color \<Rightarrow> int \<Rightarrow> int \<Rightarrow> direction \<Rightarrow> nat \<Rightarrow> positions" where
  "paint b color r c d 0 = b"
| "paint b color r c d (Suc m) = paint (put b r c color) color (r + drow d) (c + dcol d) d m"

text \<open>The number of occupied cells of a board.\<close>

definition occupied :: "positions \<Rightarrow> nat" where
  "occupied b = length (filter (\<lambda>cell. cell \<noteq> None) (concat b))"

text \<open>The cells of a closure: \<open>within\<close>, from its start to its end, both included;
  \<open>flipped\<close>, those strictly between the two.\<close>

definition within :: "closure \<Rightarrow> int \<Rightarrow> int \<Rightarrow> bool" where
  "within cl r c \<longleftrightarrow>
     (\<exists>i\<le>cl_flipCount cl + 1.
        r = snd (cl_start cl) + int i * drow (cl_direction cl)
        \<and> c = fst (cl_start cl) + int i * dcol (cl_direction cl))"

definition flipped :: "closure \<Rightarrow> int \<Rightarrow> int \<Rightarrow> bool" where
  "flipped cl r c \<longleftrightarrow>
     (\<exists>i. 1 \<le> i \<and> i \<le> cl_flipCount cl
        \<and> r = snd (cl_start cl) + int i * drow (cl_direction cl)
        \<and> c = fst (cl_start cl) + int i * dcol (cl_direction cl))"

text \<open>The total flip count of a move: the sum of the flip counts of its closures.\<close>

definition totalFlips :: "int \<Rightarrow> positions \<Rightarrow> color \<Rightarrow> coordinate \<Rightarrow> nat" where
  "totalFlips n b color m =
     (case validateMove n b m color of
        None \<Rightarrow> 0
      | Some closures \<Rightarrow> sum_list (map cl_flipCount closures))"

section \<open>Example games\<close>

text \<open>The board of the example in the README (8 by 8), before Black plays g6, which is
  row 5, column 6.\<close>

definition readme_board :: positions where
  "readme_board =
     [[None, None, None, None, None, None, None, None],
      [None, None, None, None, None, None, None, None],
      [None, None, None, Some WHITE, Some BLACK, Some WHITE, None, None],
      [None, None, Some WHITE, Some BLACK, Some BLACK, Some WHITE, Some BLACK, None],
      [None, Some WHITE, Some BLACK, Some WHITE, Some BLACK, Some WHITE, None, None],
      [None, Some BLACK, Some WHITE, Some WHITE, Some WHITE, Some WHITE, None, None],
      [None, None, None, None, None, None, None, None],
      [None, None, None, None, None, None, None, None]]"

text \<open>The game of the README's example, Black to play g6.\<close>

definition readme_game :: game where
  "readme_game =
     \<lparr>board = readme_board, scores = getScores 8 readme_board, curPlayer = BLACK\<rparr>"

text \<open>Two small games: in the first Black's move at (0, 2) leaves neither color a move,
  with three pieces each; in the second it leaves White none and Black one, at (3, 3).\<close>

definition tie_board :: positions where
  "tie_board =
     [[Some BLACK, Some WHITE, None],
      [None, None, None],
      [Some WHITE, Some WHITE, Some WHITE]]"

definition skip_board :: positions where
  "skip_board =
     [[Some BLACK, Some WHITE, None, None],
      [None, None, None, None],
      [None, None, None, None],
      [Some BLACK, Some WHITE, Some WHITE, None]]"

definition tie_game :: game where
  "tie_game = \<lparr>board = tie_board, scores = getScores 3 tie_board, curPlayer = BLACK\<rparr>"

definition skip_game :: game where
  "skip_game = \<lparr>board = skip_board, scores = getScores 4 skip_board, curPlayer = BLACK\<rparr>"

section \<open>Termination of the scan\<close>

lemma cfc_body_dist:
  "cfc_cond n color s \<Longrightarrow> cfc_dist n d (cfc_body n b color d s) < cfc_dist n d s"
  by (cases d) (auto simp: cfc_cond_def look_def Let_def)

lemma cfc_dist_le:
  "cfc_cond n color s \<Longrightarrow> cfc_dist n d s \<le> nat n"
  by (cases d) (auto simp: cfc_cond_def)

lemma cfc_loop_iterations:
  "\<exists>k. k \<le> cfc_dist n d s \<and> k \<le> nat n
     \<and> \<not> cfc_cond n color ((cfc_body n b color d ^^ k) s)
     \<and> cfc_loop n b color d s = (cfc_body n b color d ^^ k) s"
proof (induction "cfc_dist n d s" arbitrary: s rule: less_induct)
  case less
  show ?case
  proof (cases "cfc_cond n color s")
    case False
    then have "0 \<le> cfc_dist n d s \<and> (0::nat) \<le> nat n
        \<and> \<not> cfc_cond n color ((cfc_body n b color d ^^ 0) s)
        \<and> cfc_loop n b color d s = (cfc_body n b color d ^^ 0) s"
      by (simp add: cfc_loop.simps)
    then show ?thesis by blast
  next
    case True
    let ?s = "cfc_body n b color d s"
    have lt: "cfc_dist n d ?s < cfc_dist n d s"
      using True by (rule cfc_body_dist)
    from less [OF lt] obtain k where k: "k \<le> cfc_dist n d ?s"
        "\<not> cfc_cond n color ((cfc_body n b color d ^^ k) ?s)"
        "cfc_loop n b color d ?s = (cfc_body n b color d ^^ k) ?s"
      by blast
    have "Suc k \<le> cfc_dist n d s" using k(1) lt by simp
    moreover have "Suc k \<le> nat n"
      using \<open>Suc k \<le> cfc_dist n d s\<close> cfc_dist_le [OF True, of d] by simp
    moreover have "\<not> cfc_cond n color ((cfc_body n b color d ^^ Suc k) s)"
      using k(2) by (simp add: funpow_swap1)
    moreover have "cfc_loop n b color d s = (cfc_body n b color d ^^ Suc k) s"
      using k(3) True by (simp add: funpow_swap1 cfc_loop.simps [of n b color d s])
    ultimately show ?thesis by blast
  qed
qed

lemma cfc_loop_while:
  "while_option (cfc_cond n color) (cfc_body n b color d) s = Some (cfc_loop n b color d s)"
proof (induction n b color d s rule: cfc_loop.induct)
  case (1 n b color d s)
  show ?case
  proof (cases "cfc_cond n color s")
    case True
    with 1 show ?thesis
      by (subst while_option_unfold) (simp add: cfc_loop.simps [of n b color d s])
  next
    case False
    then show ?thesis
      by (subst while_option_unfold) (simp add: cfc_loop.simps [of n b color d s])
  qed
qed

text \<open>
  C10. The scan loop of \<^verbatim>\<open>checkForClosure\<close> ends, for every board, start, color and each of
  the eight directions: the loop, run as a while loop from any state, returns; it makes at
  most \<open>n\<close> (the board's size) passes; and each pass moves the cursor by one cell in the
  direction scanned, strictly nearer the edge it walks to.
\<close>

theorem checkForClosure_terminates:
  "(\<exists>k\<le>nat n.
      \<not> cfc_cond n color ((cfc_body n b color d ^^ k) s)
      \<and> cfc_loop n b color d s = (cfc_body n b color d ^^ k) s)
   \<and> while_option (cfc_cond n color) (cfc_body n b color d) s = Some (cfc_loop n b color d s)
   \<and> (if cfc_cond n color s
      then cfc_dist n d (cfc_body n b color d s) < cfc_dist n d s \<and> cfc_dist n d s \<le> nat n
      else cfc_loop n b color d s = s)"
proof -
  have "\<exists>k\<le>nat n.
      \<not> cfc_cond n color ((cfc_body n b color d ^^ k) s)
      \<and> cfc_loop n b color d s = (cfc_body n b color d ^^ k) s"
    using cfc_loop_iterations [of n d s color b] by blast
  moreover have "if cfc_cond n color s
      then cfc_dist n d (cfc_body n b color d s) < cfc_dist n d s \<and> cfc_dist n d s \<le> nat n
      else cfc_loop n b color d s = s"
    by (simp add: cfc_body_dist cfc_dist_le cfc_loop.simps [of n b color d s])
  ultimately show ?thesis
    using cfc_loop_while by blast
qed

section \<open>What a scan finds\<close>

lemma not_own_iff: "(x \<noteq> Some color \<and> x \<noteq> None) \<longleftrightarrow> x = Some (other color)"
proof (cases x)
  case None
  then show ?thesis by simp
next
  case (Some a)
  then show ?thesis by (cases a; cases color) (simp_all add: other_def)
qed

lemma look_alt:
  "look b color r c s =
     s\<lparr>val := Cell (at b r c),
       flipCount := flipCount s + (if at b r c = Some (other color) then 1 else 0)\<rparr>"
  unfolding look_def not_own_iff by simp

lemma cfc_body_step:
  assumes "cfc_cond n color s"
  shows "cfc_body n b color d s =
     (if inside n (checkRow s + drow d) (checkCol s + dcol d)
      then \<lparr>val = Cell (at b (checkRow s + drow d) (checkCol s + dcol d)),
            checkCol = checkCol s + dcol d, checkRow = checkRow s + drow d,
            flipCount = flipCount s
              + (if at b (checkRow s + drow d) (checkCol s + dcol d) = Some (other color)
                 then 1 else 0)\<rparr>
      else s\<lparr>checkCol := checkCol s + dcol d, checkRow := checkRow s + drow d\<rparr>)"
  using assms
  by (cases d) (auto simp: cfc_cond_def look_alt Let_def inside_def)

lemma run_0:
  "run n b color r c d 0 \<longleftrightarrow>
     inside n (r + drow d) (c + dcol d) \<and> at b (r + drow d) (c + dcol d) = Some color"
  by (simp add: run_def)

lemma run_Suc:
  "run n b color r c d (Suc k) \<longleftrightarrow>
     inside n (r + drow d) (c + dcol d) \<and> at b (r + drow d) (c + dcol d) = Some (other color)
     \<and> run n b color (r + drow d) (c + dcol d) d k"
proof -
  have shift: "\<And>P. (\<forall>i\<in>{1..Suc k}. P i) \<longleftrightarrow> P 1 \<and> (\<forall>i\<in>{1..k}. P (Suc i))"
  proof -
    fix P :: "nat \<Rightarrow> bool"
    show "(\<forall>i\<in>{1..Suc k}. P i) \<longleftrightarrow> P 1 \<and> (\<forall>i\<in>{1..k}. P (Suc i))"
      (is "?L \<longleftrightarrow> ?R")
    proof
      assume ?L
      then show ?R by auto
    next
      assume R: ?R
      show ?L
      proof
        fix i assume i: "i \<in> {1..Suc k}"
        show "P i"
        proof (cases "i = 1")
          case True
          with R show ?thesis by simp
        next
          case False
          with i obtain j where "i = Suc j" "j \<in> {1..k}" by (cases i) auto
          with R show ?thesis by auto
        qed
      qed
    qed
  qed
  have a: "\<And>i. r + int (Suc i) * drow d = r + drow d + int i * drow d"
    and b: "\<And>i. c + int (Suc i) * dcol d = c + dcol d + int i * dcol d"
    by (simp_all add: algebra_simps)
  have "run n b color r c d (Suc k) \<longleftrightarrow>
     (inside n (r + drow d) (c + dcol d) \<and> at b (r + drow d) (c + dcol d) = Some (other color))
     \<and> (\<forall>i\<in>{1..k}. inside n (r + drow d + int i * drow d) (c + dcol d + int i * dcol d)
        \<and> at b (r + drow d + int i * drow d) (c + dcol d + int i * dcol d) = Some (other color))
     \<and> inside n (r + (int (Suc k) + 1) * drow d) (c + (int (Suc k) + 1) * dcol d)
     \<and> at b (r + (int (Suc k) + 1) * drow d) (c + (int (Suc k) + 1) * dcol d) = Some color"
    unfolding run_def shift a b by simp
  also have "r + (int (Suc k) + 1) * drow d = r + drow d + (int k + 1) * drow d"
    by (simp add: algebra_simps)
  also have "c + (int (Suc k) + 1) * dcol d = c + dcol d + (int k + 1) * dcol d"
    by (simp add: algebra_simps)
  finally show ?thesis
    unfolding run_def by blast
qed

lemma other_neq: "other color \<noteq> color" "color \<noteq> other color"
  by (auto simp: other_def)

lemma scan_run:
  assumes "cfc_cond n color s" "run n b color (checkRow s) (checkCol s) d k"
  shows "cfc_loop n b color d s =
     \<lparr>val = Cell (Some color), checkCol = checkCol s + (int k + 1) * dcol d,
      checkRow = checkRow s + (int k + 1) * drow d, flipCount = flipCount s + k\<rparr>"
  using assms
proof (induction k arbitrary: s)
  case 0
  then show ?case
    by (subst cfc_loop.simps, subst cfc_loop.simps)
       (simp add: cfc_body_step run_0 other_neq cfc_cond_def)
next
  case (Suc k)
  let ?s = "cfc_body n b color d s"
  from Suc.prems have ins: "inside n (checkRow s + drow d) (checkCol s + dcol d)"
    and opp: "at b (checkRow s + drow d) (checkCol s + dcol d) = Some (other color)"
    and rest: "run n b color (checkRow s + drow d) (checkCol s + dcol d) d k"
    by (simp_all add: run_Suc)
  have s': "?s = \<lparr>val = Cell (Some (other color)), checkCol = checkCol s + dcol d,
      checkRow = checkRow s + drow d, flipCount = flipCount s + 1\<rparr>"
    using Suc.prems(1) ins opp by (simp add: cfc_body_step)
  have cond': "cfc_cond n color ?s"
    using ins by (simp add: s' cfc_cond_def inside_def other_neq)
  have "cfc_loop n b color d ?s =
     \<lparr>val = Cell (Some color), checkCol = checkCol ?s + (int k + 1) * dcol d,
      checkRow = checkRow ?s + (int k + 1) * drow d, flipCount = flipCount ?s + k\<rparr>"
    using cond' rest by (intro Suc.IH) (simp_all add: s')
  then show ?case
    using Suc.prems(1) by (subst cfc_loop.simps) (simp add: s' algebra_simps)
qed

lemma scan_closed:
  assumes "cfc_cond n color s" "val (cfc_loop n b color d s) = Cell (Some color)"
  shows "\<exists>k. run n b color (checkRow s) (checkCol s) d k"
  using assms
proof (induction n b color d s rule: cfc_loop.induct)
  case (1 n b color d s)
  let ?s = "cfc_body n b color d s"
  have loop: "cfc_loop n b color d s = cfc_loop n b color d ?s"
    using "1.prems"(1) by (subst cfc_loop.simps) simp
  show ?case
  proof (cases "cfc_cond n color ?s")
    case True
    then have ins: "inside n (checkRow s + drow d) (checkCol s + dcol d)"
      using "1.prems"(1) by (auto simp: cfc_body_step cfc_cond_def inside_def split: if_splits)
    then have s': "?s = \<lparr>val = Cell (at b (checkRow s + drow d) (checkCol s + dcol d)),
            checkCol = checkCol s + dcol d, checkRow = checkRow s + drow d,
            flipCount = flipCount s
              + (if at b (checkRow s + drow d) (checkCol s + dcol d) = Some (other color)
                 then 1 else 0)\<rparr>"
      using "1.prems"(1) by (simp add: cfc_body_step)
    have opp: "at b (checkRow s + drow d) (checkCol s + dcol d) = Some (other color)"
      using True by (simp add: s' cfc_cond_def not_own_iff [symmetric])
    from "1.IH" [OF "1.prems"(1) True] "1.prems"(2) loop
    obtain k where "run n b color (checkRow ?s) (checkCol ?s) d k" by auto
    then have "run n b color (checkRow s) (checkCol s) d (Suc k)"
      using ins opp by (simp add: run_Suc s')
    then show ?thesis by blast
  next
    case False
    then have "cfc_loop n b color d ?s = ?s" by (subst cfc_loop.simps) simp
    with loop "1.prems"(2) have v: "val ?s = Cell (Some color)" by simp
    have "val s \<noteq> Cell (Some color)" using "1.prems"(1) by (simp add: cfc_cond_def)
    with v have "run n b color (checkRow s) (checkCol s) d 0"
      using "1.prems"(1) by (auto simp: cfc_body_step run_0 split: if_splits)
    then show ?thesis by blast
  qed
qed

section \<open>Legal moves: validateMove\<close>

lemma closes_run: "closes n b color coords d \<longleftrightarrow> (\<exists>k\<ge>1. run n b color (row coords) (col coords) d k)"
  by (simp add: closes_def run_def)

lemma checkForClosure_iff:
  assumes "inside n (row coords) (col coords)"
  shows "checkForClosure n b color coords d = Some cl \<longleftrightarrow>
     (\<exists>k\<ge>1. run n b color (row coords) (col coords) d k \<and> cl = closure_of coords d k)"
proof -
  let ?s = "\<lparr>val = Zero, checkCol = col coords, checkRow = row coords, flipCount = 0\<rparr>"
  have cond: "cfc_cond n color ?s"
    using assms by (simp add: cfc_cond_def inside_def)
  have res: "cfc_loop n b color d ?s =
      \<lparr>val = Cell (Some color), checkCol = col coords + (int k + 1) * dcol d,
       checkRow = row coords + (int k + 1) * drow d, flipCount = k\<rparr>"
    if "run n b color (row coords) (col coords) d k" for k
    using scan_run [OF cond, of b d k] that by simp
  show ?thesis
  proof
    assume some: "checkForClosure n b color coords d = Some cl"
    then have "val (cfc_loop n b color d ?s) = Cell (Some color)"
      by (auto simp: checkForClosure_def Let_def split: if_splits)
    with scan_closed [OF cond] obtain k where k: "run n b color (row coords) (col coords) d k"
      by auto
    from some have "1 \<le> k \<and> cl = closure_of coords d k"
      by (auto simp: checkForClosure_def res [OF k] closure_of_def Let_def split: if_splits)
    with k show "\<exists>k\<ge>1. run n b color (row coords) (col coords) d k \<and> cl = closure_of coords d k"
      by blast
  next
    assume "\<exists>k\<ge>1. run n b color (row coords) (col coords) d k \<and> cl = closure_of coords d k"
    then obtain k where "1 \<le> k" "run n b color (row coords) (col coords) d k"
        "cl = closure_of coords d k" by blast
    then show "checkForClosure n b color coords d = Some cl"
      by (simp add: checkForClosure_def res closure_of_def Let_def)
  qed
qed

lemma getClosures_loop_eq:
  "getClosures_loop n b color coords ds closures =
     closures @ List.map_filter (checkForClosure n b color coords) ds"
  by (induction ds arbitrary: closures) (auto simp: List.map_filter_simps split: option.splits)

lemma UNIV_direction: "set DIRECTIONS = UNIV"
proof -
  have "d \<in> set DIRECTIONS" for d by (cases d) (simp_all add: DIRECTIONS_def)
  then show ?thesis by blast
qed

lemma set_map_filter: "set (List.map_filter f xs) = {y. \<exists>x\<in>set xs. f x = Some y}"
  by (induction xs) (auto simp: List.map_filter_simps split: option.splits)

lemma set_getClosures:
  "set (getClosures n b color coords) = {cl. \<exists>d. checkForClosure n b color coords d = Some cl}"
  by (simp add: getClosures_def getClosures_loop_eq set_map_filter UNIV_direction)

lemma validateMove_Some:
  "validateMove n b coords color = Some closures \<longleftrightarrow>
     at b (row coords) (col coords) = None \<and> closures = getClosures n b color coords
     \<and> closures \<noteq> []"
  by (auto simp: validateMove_def Let_def)

lemma validateMove_None:
  "validateMove n b coords color = None \<longleftrightarrow>
     at b (row coords) (col coords) \<noteq> None \<or> getClosures n b color coords = []"
  by (auto simp: validateMove_def Let_def)

lemma getClosures_nonempty:
  assumes "inside n (row coords) (col coords)"
  shows "getClosures n b color coords \<noteq> [] \<longleftrightarrow> (\<exists>d. closes n b color coords d)"
proof -
  have "getClosures n b color coords \<noteq> [] \<longleftrightarrow> set (getClosures n b color coords) \<noteq> {}"
    by simp
  also have "\<dots> \<longleftrightarrow> (\<exists>d cl. checkForClosure n b color coords d = Some cl)"
    unfolding set_getClosures by blast
  also have "\<dots> \<longleftrightarrow> (\<exists>d. closes n b color coords d)"
    unfolding checkForClosure_iff [OF assms] closes_run by blast
  finally show ?thesis .
qed

text \<open>
  C1. On a board of size \<open>n\<close> and for a coordinate inside it, \<^verbatim>\<open>validateMove\<close> returns
  closures, and then at least one, exactly when the target cell is empty and in at least one
  of the eight directions a run of one or more cells of the other color starts right next to
  the coordinate, has no gap, stays on the board and is followed by a cell of the mover's
  color; in every other case it returns \<^verbatim>\<open>false\<close>.
\<close>

theorem validateMove_legal_iff:
  assumes "wf_board n b" and "inside n (row coords) (col coords)"
  shows "((\<exists>closures. validateMove n b coords color = Some closures \<and> closures \<noteq> [])
            \<longleftrightarrow> at b (row coords) (col coords) = None \<and> (\<exists>d. closes n b color coords d))
     \<and> (validateMove n b coords color = None
            \<longleftrightarrow> \<not> (at b (row coords) (col coords) = None \<and> (\<exists>d. closes n b color coords d)))"
  using getClosures_nonempty [OF assms(2), of b color]
  by (auto simp: validateMove_Some validateMove_None)

lemma wf_readme_board: "wf_board 8 readme_board"
  by (simp add: wf_board_def readme_board_def)

lemma validateMove_readme_g6:
  "validateMove 8 readme_board (Coordinate 5 6) BLACK =
     Some [\<lparr>cl_direction = Left, cl_start = (6, 5), cl_end = (1, 5), cl_flipCount = 4\<rparr>,
           \<lparr>cl_direction = LeftUp, cl_start = (6, 5), cl_end = (4, 3), cl_flipCount = 1\<rparr>]"
  by code_simp

theorem validateMove_legal_iff_witness:
  "wf_board 8 readme_board \<and> inside 8 5 6
   \<and> validateMove 8 readme_board (Coordinate 5 6) BLACK \<noteq> None
   \<and> at readme_board 5 6 = None
   \<and> (\<exists>d. closes 8 readme_board BLACK (Coordinate 5 6) d)"
proof -
  have ins: "inside 8 (row (Coordinate 5 6)) (col (Coordinate 5 6))"
    by (simp add: inside_def)
  show ?thesis
    using validateMove_legal_iff [OF wf_readme_board ins, of BLACK] ins
    by (simp add: validateMove_readme_g6 wf_readme_board)
qed

section \<open>The two enumerations of legal moves\<close>

lemma hasAny_cols_iff:
  "hasAny_cols n b color r c \<longleftrightarrow> (\<exists>c'. c \<le> c' \<and> c' < n \<and> valid_at n b color r c')"
proof (induction n b color r c rule: hasAny_cols.induct)
  case (1 n b color r c)
  show ?case
  proof (cases "c < n")
    case False
    then show ?thesis by (subst hasAny_cols.simps) auto
  next
    case True
    show ?thesis
    proof (cases "valid_at n b color r c")
      case v: True
      then have "hasAny_cols n b color r c"
        using True by (subst hasAny_cols.simps) (simp add: valid_at_def)
      moreover have "\<exists>c'. c \<le> c' \<and> c' < n \<and> valid_at n b color r c'"
        using True v by blast
      ultimately show ?thesis by simp
    next
      case v: False
      then have "hasAny_cols n b color r c \<longleftrightarrow> hasAny_cols n b color r (c + 1)"
        using True by (subst hasAny_cols.simps) (simp add: valid_at_def)
      also have "\<dots> \<longleftrightarrow> (\<exists>c'. c + 1 \<le> c' \<and> c' < n \<and> valid_at n b color r c')"
        using "1.IH" True v by (simp add: valid_at_def)
      also have "\<dots> \<longleftrightarrow> (\<exists>c'. c \<le> c' \<and> c' < n \<and> valid_at n b color r c')"
      proof -
        have "c \<le> c' \<and> valid_at n b color r c' \<longleftrightarrow> c + 1 \<le> c' \<and> valid_at n b color r c'" for c'
          using v by (cases "c' = c") auto
        then show ?thesis by blast
      qed
      finally show ?thesis .
    qed
  qed
qed

lemma hasAny_rows_iff:
  "hasAny_rows n b color r \<longleftrightarrow>
     (\<exists>r' c'. r \<le> r' \<and> r' < n \<and> 0 \<le> c' \<and> c' < n \<and> valid_at n b color r' c')"
proof (induction n b color r rule: hasAny_rows.induct)
  case (1 n b color r)
  show ?case
  proof (cases "r < n")
    case False
    then show ?thesis by (subst hasAny_rows.simps) auto
  next
    case True
    show ?thesis
    proof (cases "hasAny_cols n b color r 0")
      case h: True
      then have "hasAny_rows n b color r"
        using True by (subst hasAny_rows.simps) simp
      moreover have "\<exists>r' c'. r \<le> r' \<and> r' < n \<and> 0 \<le> c' \<and> c' < n \<and> valid_at n b color r' c'"
        using True h unfolding hasAny_cols_iff by blast
      ultimately show ?thesis by simp
    next
      case h: False
      then have none: "\<not> (0 \<le> c' \<and> c' < n \<and> valid_at n b color r c')" for c'
        unfolding hasAny_cols_iff by blast
      have "hasAny_rows n b color r \<longleftrightarrow> hasAny_rows n b color (r + 1)"
        using True h by (subst hasAny_rows.simps) simp
      also have "\<dots> \<longleftrightarrow>
          (\<exists>r' c'. r + 1 \<le> r' \<and> r' < n \<and> 0 \<le> c' \<and> c' < n \<and> valid_at n b color r' c')"
        using "1.IH" True h by simp
      also have "\<dots> \<longleftrightarrow>
          (\<exists>r' c'. r \<le> r' \<and> r' < n \<and> 0 \<le> c' \<and> c' < n \<and> valid_at n b color r' c')"
      proof -
        have "r \<le> r' \<and> 0 \<le> c' \<and> c' < n \<and> valid_at n b color r' c'
            \<longleftrightarrow> r + 1 \<le> r' \<and> 0 \<le> c' \<and> c' < n \<and> valid_at n b color r' c'" for r' c'
          using none [of c'] by (cases "r' = r") auto
        then show ?thesis by blast
      qed
      finally show ?thesis .
    qed
  qed
qed

lemma set_getAll_cols:
  "set (getAll_cols n b color r c validMoves) =
     set validMoves \<union> {Coordinate r c' | c'. c \<le> c' \<and> c' < n \<and> valid_at n b color r c'}"
proof (induction n b color r c validMoves rule: getAll_cols.induct)
  case (1 n b color r c validMoves)
  show ?case
  proof (cases "c < n")
    case False
    then show ?thesis by (subst getAll_cols.simps) auto
  next
    case True
    have split: "{Coordinate r c' | c'. c \<le> c' \<and> c' < n \<and> valid_at n b color r c'} =
        (if valid_at n b color r c then {Coordinate r c} else {})
        \<union> {Coordinate r c' | c'. c + 1 \<le> c' \<and> c' < n \<and> valid_at n b color r c'}"
    proof -
      have "c \<le> c' \<longleftrightarrow> c' = c \<or> c + 1 \<le> c'" for c' by auto
      then show ?thesis using True by auto
    qed
    show ?thesis
      using "1.IH" True
      by (subst getAll_cols.simps, subst split) (auto simp: valid_at_def)
  qed
qed

lemma set_getAll_rows:
  "set (getAll_rows n b color r validMoves) =
     set validMoves
     \<union> {Coordinate r' c' | r' c'. r \<le> r' \<and> r' < n \<and> 0 \<le> c' \<and> c' < n \<and> valid_at n b color r' c'}"
proof (induction n b color r validMoves rule: getAll_rows.induct)
  case (1 n b color r validMoves)
  show ?case
  proof (cases "r < n")
    case False
    then show ?thesis by (subst getAll_rows.simps) auto
  next
    case True
    have split: "{Coordinate r' c' | r' c'. r \<le> r' \<and> r' < n \<and> 0 \<le> c' \<and> c' < n \<and> valid_at n b color r' c'} =
        {Coordinate r c' | c'. 0 \<le> c' \<and> c' < n \<and> valid_at n b color r c'}
        \<union> {Coordinate r' c' | r' c'. r + 1 \<le> r' \<and> r' < n \<and> 0 \<le> c' \<and> c' < n \<and> valid_at n b color r' c'}"
    proof -
      have "r \<le> r' \<longleftrightarrow> r' = r \<or> r + 1 \<le> r'" for r' by auto
      then show ?thesis using True by auto
    qed
    show ?thesis
      using "1.IH" True
      by (subst getAll_rows.simps, subst split) (auto simp: set_getAll_cols)
  qed
qed

lemma set_getAllValidMoves:
  "set (getAllValidMoves n b color) =
     {Coordinate r c | r c. 0 \<le> r \<and> r < n \<and> 0 \<le> c \<and> c < n \<and> valid_at n b color r c}"
  by (simp add: getAllValidMoves_def set_getAll_rows)

lemma playerHasAnyValidMoves_iff:
  "playerHasAnyValidMoves n b color \<longleftrightarrow>
     (\<exists>r c. 0 \<le> r \<and> r < n \<and> 0 \<le> c \<and> c < n \<and> valid_at n b color r c)"
  by (simp add: playerHasAnyValidMoves_def hasAny_rows_iff)

lemma has_legal_move_iff:
  "has_legal_move n b color \<longleftrightarrow> playerHasAnyValidMoves n b color"
  unfolding playerHasAnyValidMoves_iff has_legal_move_def inside_def valid_at_def by blast

text \<open>
  C9. For every board and color, \<^verbatim>\<open>playerHasAnyValidMoves(color)\<close> returns true exactly
  when \<^verbatim>\<open>getAllValidMoves(color)\<close> returns a list that is not empty.
\<close>

theorem hasAny_iff_getAll:
  "playerHasAnyValidMoves n b color \<longleftrightarrow> getAllValidMoves n b color \<noteq> []"
proof -
  have "getAllValidMoves n b color \<noteq> [] \<longleftrightarrow> set (getAllValidMoves n b color) \<noteq> {}"
    by simp
  also have "\<dots> \<longleftrightarrow> (\<exists>r c. 0 \<le> r \<and> r < n \<and> 0 \<le> c \<and> c < n \<and> valid_at n b color r c)"
    unfolding set_getAllValidMoves by blast
  finally show ?thesis
    by (simp add: playerHasAnyValidMoves_iff)
qed

section \<open>The turn after a move\<close>

lemma other_other: "other (other color) = color"
  by (cases color) (simp_all add: other_def)

text \<open>
  C3. After an accepted move the scores are those counted on the new board; if the next
  color has a legal move somewhere on the board the turn passes to it; if it has none, the
  player to move is again the mover, and then, if the mover has a legal move, play goes on
  with the skipped turn announced, and if the mover has none either the game ends,
  announcing the color with strictly more pieces as the winner, or a tie when both have as
  many.
\<close>

theorem play_move_turn:
  assumes "wf_board n (board g)" and "inside n (row move) (col move)"
    and "validateMove n (board g) move (curPlayer g) = Some closures"
  shows "(case play_move n g move of (out, g') \<Rightarrow>
      scores g' = getScores n (board g')
      \<and> (if has_legal_move n (board g') (other (curPlayer g))
         then out = Turn_passed \<and> curPlayer g' = other (curPlayer g)
         else curPlayer g' = curPlayer g
           \<and> (if has_legal_move n (board g') (curPlayer g)
              then out = No_valid_moves (other (curPlayer g))
              else out = Game_over
                     (if black (scores g') > white (scores g') then Black_wins
                      else if white (scores g') > black (scores g') then White_wins
                      else Tie_game))))"
  using assms(3)
  by (auto simp: play_move_def Let_def other_other announce_def has_legal_move_iff)

lemma play_move_tie_game:
  "play_move 3 tie_game (Coordinate 0 2) =
     (Game_over Tie_game,
      \<lparr>board = [[Some BLACK, Some BLACK, Some BLACK],
                [None, None, None],
                [Some WHITE, Some WHITE, Some WHITE]],
       scores = \<lparr>black = 3, white = 3\<rparr>, curPlayer = BLACK\<rparr>)"
  by code_simp

lemma play_move_skip_game:
  "play_move 4 skip_game (Coordinate 0 2) =
     (No_valid_moves WHITE,
      \<lparr>board = [[Some BLACK, Some BLACK, Some BLACK, None],
                [None, None, None, None],
                [None, None, None, None],
                [Some BLACK, Some WHITE, Some WHITE, None]],
       scores = \<lparr>black = 4, white = 2\<rparr>, curPlayer = BLACK\<rparr>)"
  by code_simp

theorem play_move_turn_witness:
  "wf_board 3 (board tie_game) \<and> inside 3 0 2
   \<and> validateMove 3 (board tie_game) (Coordinate 0 2) (curPlayer tie_game)
       = Some [\<lparr>cl_direction = Left, cl_start = (2, 0), cl_end = (0, 0), cl_flipCount = 1\<rparr>]
   \<and> \<not> has_legal_move 3 (board (snd (play_move 3 tie_game (Coordinate 0 2)))) WHITE
   \<and> \<not> has_legal_move 3 (board (snd (play_move 3 tie_game (Coordinate 0 2)))) BLACK
   \<and> fst (play_move 3 tie_game (Coordinate 0 2)) = Game_over Tie_game
   \<and> curPlayer (snd (play_move 3 tie_game (Coordinate 0 2))) = BLACK
   \<and> wf_board 4 (board skip_game) \<and> inside 4 0 2
   \<and> validateMove 4 (board skip_game) (Coordinate 0 2) (curPlayer skip_game)
       = Some [\<lparr>cl_direction = Left, cl_start = (2, 0), cl_end = (0, 0), cl_flipCount = 1\<rparr>]
   \<and> \<not> has_legal_move 4 (board (snd (play_move 4 skip_game (Coordinate 0 2)))) WHITE
   \<and> has_legal_move 4 (board (snd (play_move 4 skip_game (Coordinate 0 2)))) BLACK
   \<and> fst (play_move 4 skip_game (Coordinate 0 2)) = No_valid_moves WHITE
   \<and> curPlayer (snd (play_move 4 skip_game (Coordinate 0 2))) = BLACK"
proof -
  have wf: "wf_board 3 (board tie_game)"
    by (simp add: wf_board_def tie_board_def tie_game_def)
  have ins: "inside 3 (row (Coordinate 0 2)) (col (Coordinate 0 2))"
    by (simp add: inside_def)
  have v: "validateMove 3 (board tie_game) (Coordinate 0 2) (curPlayer tie_game)
       = Some [\<lparr>cl_direction = Left, cl_start = (2, 0), cl_end = (0, 0), cl_flipCount = 1\<rparr>]"
    by code_simp
  have w: "\<not> has_legal_move 3 (board (snd (play_move 3 tie_game (Coordinate 0 2)))) WHITE"
    unfolding has_legal_move_iff play_move_tie_game by code_simp
  have k: "\<not> has_legal_move 3 (board (snd (play_move 3 tie_game (Coordinate 0 2)))) BLACK"
    unfolding has_legal_move_iff play_move_tie_game by code_simp
  have sc: "getScores 3 (board (snd (play_move 3 tie_game (Coordinate 0 2))))
      = \<lparr>black = 3, white = 3\<rparr>"
    unfolding play_move_tie_game by code_simp
  have cur: "curPlayer tie_game = BLACK" by (simp add: tie_game_def)
  have tie: "fst (play_move 3 tie_game (Coordinate 0 2)) = Game_over Tie_game
      \<and> curPlayer (snd (play_move 3 tie_game (Coordinate 0 2))) = BLACK"
    using play_move_turn [OF wf ins v] w k
    by (simp add: case_prod_unfold cur other_def sc)
  have wf': "wf_board 4 (board skip_game)"
    by (simp add: wf_board_def skip_board_def skip_game_def)
  have ins': "inside 4 (row (Coordinate 0 2)) (col (Coordinate 0 2))"
    by (simp add: inside_def)
  have v': "validateMove 4 (board skip_game) (Coordinate 0 2) (curPlayer skip_game)
       = Some [\<lparr>cl_direction = Left, cl_start = (2, 0), cl_end = (0, 0), cl_flipCount = 1\<rparr>]"
    by code_simp
  have w': "\<not> has_legal_move 4 (board (snd (play_move 4 skip_game (Coordinate 0 2)))) WHITE"
    unfolding has_legal_move_iff play_move_skip_game by code_simp
  have k': "has_legal_move 4 (board (snd (play_move 4 skip_game (Coordinate 0 2)))) BLACK"
    unfolding has_legal_move_iff play_move_skip_game by code_simp
  have cur': "curPlayer skip_game = BLACK" by (simp add: skip_game_def)
  have skip: "fst (play_move 4 skip_game (Coordinate 0 2)) = No_valid_moves WHITE
      \<and> curPlayer (snd (play_move 4 skip_game (Coordinate 0 2))) = BLACK"
    using play_move_turn [OF wf' ins' v'] w' k'
    by (simp add: case_prod_unfold cur' other_def)
  show ?thesis
    using wf ins v w k tie wf' ins' v' w' k' skip by simp
qed

section \<open>A rejected move\<close>

text \<open>
  C8. On a board of size \<open>n\<close>, for a coordinate inside it and either color: when the target
  cell is occupied or no direction closes, \<^verbatim>\<open>validateMove\<close> returns \<^verbatim>\<open>false\<close> and the
  pass through the loop of \<^verbatim>\<open>play\<close> ends with the whole state as it was: the board, the
  scores and the player to move. (\<^verbatim>\<open>validateMove\<close>, \<^verbatim>\<open>getClosures\<close> and
  \<^verbatim>\<open>checkForClosure\<close> assign to no field, so they are functions of the board alone.)
\<close>

theorem rejected_move_unchanged:
  assumes "wf_board n (board g)" and "inside n (row move) (col move)"
    and "at (board g) (row move) (col move) \<noteq> None
         \<or> getClosures n (board g) (curPlayer g) move = []"
  shows "validateMove n (board g) move (curPlayer g) = None
     \<and> play_move n g move = (Invalid_move, g)"
  using assms(3) by (auto simp: play_move_def validateMove_def Let_def)

theorem rejected_move_unchanged_witness:
  "wf_board 8 readme_board \<and> inside 8 2 3 \<and> inside 8 0 0
   \<and> at readme_board 2 3 \<noteq> None
   \<and> getClosures 8 readme_board BLACK (Coordinate 0 0) = []
   \<and> play_move 8 \<lparr>board = readme_board, scores = \<lparr>black = 8, white = 10\<rparr>, curPlayer = BLACK\<rparr>
        (Coordinate 2 3)
      = (Invalid_move,
         \<lparr>board = readme_board, scores = \<lparr>black = 8, white = 10\<rparr>, curPlayer = BLACK\<rparr>)
   \<and> play_move 8 \<lparr>board = readme_board, scores = \<lparr>black = 8, white = 10\<rparr>, curPlayer = BLACK\<rparr>
        (Coordinate 0 0)
      = (Invalid_move,
         \<lparr>board = readme_board, scores = \<lparr>black = 8, white = 10\<rparr>, curPlayer = BLACK\<rparr>)"
proof -
  let ?g = "\<lparr>board = readme_board, scores = \<lparr>black = 8, white = 10\<rparr>, curPlayer = BLACK\<rparr>"
  have wf: "wf_board 8 (board ?g)" by (simp add: wf_readme_board)
  have i1: "inside 8 (row (Coordinate 2 3)) (col (Coordinate 2 3))" by (simp add: inside_def)
  have i2: "inside 8 (row (Coordinate 0 0)) (col (Coordinate 0 0))" by (simp add: inside_def)
  have occ: "at (board ?g) (row (Coordinate 2 3)) (col (Coordinate 2 3)) \<noteq> None"
    by (simp add: at_def readme_board_def)
  have nocl: "getClosures 8 (board ?g) (curPlayer ?g) (Coordinate 0 0) = []"
    by code_simp
  show ?thesis
    using rejected_move_unchanged [OF wf i1 disjI1, OF occ]
      rejected_move_unchanged [OF wf i2 disjI2, OF nocl] wf i1 i2 occ nocl
    by simp
qed

section \<open>The sizes a game is built with\<close>

text \<open>
  C7 as stated fails at size 0: 0 is outside 1..26, and construction succeeds, with a board
  of no rows.
\<close>

theorem Othello_constructor_size_0:
  "(0::int) < 1 \<and> Othello_constructor 0 = Inr []"
  by (simp add: Othello_constructor_def Board_constructor_def)

text \<open>
  C7, amended. Construction succeeds exactly for the sizes from 0 to 26, with a board of
  \<open>size\<close> rows of \<open>size\<close> empty cells; it fails with the board-size error exactly for the
  sizes above 26; below 0 it fails in the array allocation, with a RangeError. There is no
  check of a lower bound.
\<close>

theorem Othello_constructor_sizes:
  "(Othello_constructor sz = Inr (replicate (nat sz) (replicate (nat sz) None))
      \<longleftrightarrow> 0 \<le> sz \<and> sz \<le> 26)
   \<and> ((\<exists>b. Othello_constructor sz = Inr b) \<longleftrightarrow> 0 \<le> sz \<and> sz \<le> 26)
   \<and> (Othello_constructor sz = Inl (BoardOutOfBoundsException ''Max board size is 26'')
      \<longleftrightarrow> sz > 26)
   \<and> (Othello_constructor sz = Inl RangeError \<longleftrightarrow> sz < 0)"
  by (auto simp: Othello_constructor_def Board_constructor_def)

section \<open>What a flip writes\<close>

lemma flip_left_paint:
  "flip_left b startRow c endCol color = paint b color startRow c Left (nat (c - endCol + 1))"
proof (induction b startRow c endCol color rule: flip_left.induct)
  case (1 b startRow c endCol color)
  show ?case
  proof (cases "c \<ge> endCol")
    case True
    then have "nat (c - endCol + 1) = Suc (nat (c - 1 - endCol + 1))" by simp
    with 1 True show ?thesis by (subst flip_left.simps) simp
  next
    case False
    then show ?thesis by (subst flip_left.simps) simp
  qed
qed

lemma flip_right_paint:
  "flip_right b startRow c endCol color = paint b color startRow c Right (nat (endCol - c + 1))"
proof (induction b startRow c endCol color rule: flip_right.induct)
  case (1 b startRow c endCol color)
  show ?case
  proof (cases "c \<le> endCol")
    case True
    then have "nat (endCol - c + 1) = Suc (nat (endCol - (c + 1) + 1))" by simp
    with 1 True show ?thesis by (subst flip_right.simps) simp
  next
    case False
    then show ?thesis by (subst flip_right.simps) simp
  qed
qed

lemma flip_up_paint:
  "flip_up b startCol r endRow color = paint b color r startCol Up (nat (r - endRow + 1))"
proof (induction b startCol r endRow color rule: flip_up.induct)
  case (1 b startCol r endRow color)
  show ?case
  proof (cases "r \<ge> endRow")
    case True
    then have "nat (r - endRow + 1) = Suc (nat (r - 1 - endRow + 1))" by simp
    with 1 True show ?thesis by (subst flip_up.simps) simp
  next
    case False
    then show ?thesis by (subst flip_up.simps) simp
  qed
qed

lemma flip_down_paint:
  "flip_down b startCol r endRow color = paint b color r startCol Down (nat (endRow - r + 1))"
proof (induction b startCol r endRow color rule: flip_down.induct)
  case (1 b startCol r endRow color)
  show ?case
  proof (cases "r \<le> endRow")
    case True
    then have "nat (endRow - r + 1) = Suc (nat (endRow - (r + 1) + 1))" by simp
    with 1 True show ?thesis by (subst flip_down.simps) simp
  next
    case False
    then show ?thesis by (subst flip_down.simps) simp
  qed
qed

lemma flip_left_up_paint:
  "flip_left_up b c r endCol endRow color =
     paint b color r c LeftUp (nat (min (c - endCol) (r - endRow) + 1))"
proof (induction b c r endCol endRow color rule: flip_left_up.induct)
  case (1 b c r endCol endRow color)
  show ?case
  proof (cases "c \<ge> endCol \<and> r \<ge> endRow")
    case True
    then have "nat (min (c - endCol) (r - endRow) + 1)
        = Suc (nat (min (c - 1 - endCol) (r - 1 - endRow) + 1))" by (auto simp: min_def)
    with 1 True show ?thesis by (subst flip_left_up.simps) simp
  next
    case False
    then show ?thesis by (subst flip_left_up.simps) auto
  qed
qed

lemma flip_right_up_paint:
  "flip_right_up b c r endCol endRow color =
     paint b color r c RightUp (nat (min (endCol - c) (r - endRow) + 1))"
proof (induction b c r endCol endRow color rule: flip_right_up.induct)
  case (1 b c r endCol endRow color)
  show ?case
  proof (cases "c \<le> endCol \<and> r \<ge> endRow")
    case True
    then have "nat (min (endCol - c) (r - endRow) + 1)
        = Suc (nat (min (endCol - (c + 1)) (r - 1 - endRow) + 1))" by (auto simp: min_def)
    with 1 True show ?thesis by (subst flip_right_up.simps) simp
  next
    case False
    then show ?thesis by (subst flip_right_up.simps) auto
  qed
qed

lemma flip_right_down_paint:
  "flip_right_down b c r endCol endRow color =
     paint b color r c RightDown (nat (min (endCol - c) (endRow - r) + 1))"
proof (induction b c r endCol endRow color rule: flip_right_down.induct)
  case (1 b c r endCol endRow color)
  show ?case
  proof (cases "c \<le> endCol \<and> r \<le> endRow")
    case True
    then have "nat (min (endCol - c) (endRow - r) + 1)
        = Suc (nat (min (endCol - (c + 1)) (endRow - (r + 1)) + 1))" by (auto simp: min_def)
    with 1 True show ?thesis by (subst flip_right_down.simps) simp
  next
    case False
    then show ?thesis by (subst flip_right_down.simps) auto
  qed
qed

lemma flip_left_down_paint:
  "flip_left_down b c r endCol endRow color =
     paint b color r c LeftDown (nat (min (c - endCol) (endRow - r) + 1))"
proof (induction b c r endCol endRow color rule: flip_left_down.induct)
  case (1 b c r endCol endRow color)
  show ?case
  proof (cases "c \<ge> endCol \<and> r \<le> endRow")
    case True
    then have "nat (min (c - endCol) (endRow - r) + 1)
        = Suc (nat (min (c - 1 - endCol) (endRow - (r + 1)) + 1))" by (auto simp: min_def)
    with 1 True show ?thesis by (subst flip_left_down.simps) simp
  next
    case False
    then show ?thesis by (subst flip_left_down.simps) auto
  qed
qed

lemma flipPieces_closure:
  "flipPieces b (cl_start (closure_of coords d k)) (cl_end (closure_of coords d k))
       (cl_direction (closure_of coords d k)) color
     = paint b color (row coords) (col coords) d (k + 2)"
proof -
  have "nat (int k + 2) = Suc (Suc k)" "nat (2 + int k) = Suc (Suc k)" by simp_all
  then show ?thesis
    by (cases d)
       (simp_all add: closure_of_def flip_left_paint flip_right_paint flip_up_paint
          flip_down_paint flip_left_up_paint flip_right_up_paint flip_right_down_paint
          flip_left_down_paint del: paint.simps)
qed

section \<open>Writes on a board\<close>

lemma wf_board_nth:
  assumes "wf_board n b" "0 \<le> r" "r < n"
  shows "nat r < length b" "int (length (b ! nat r)) = n"
proof -
  show "nat r < length b" using assms by (auto simp: wf_board_def)
  then have "b ! nat r \<in> set b" by simp
  then show "int (length (b ! nat r)) = n" using assms(1) by (simp add: wf_board_def)
qed

lemma wf_put: 
  assumes "wf_board n b"
  shows "wf_board n (put b r c v)"
proof (cases "0 \<le> r \<and> r < int (length b) \<and> 0 \<le> c \<and> c < int (length (b ! nat r))")
  case False
  then show ?thesis using assms by (auto simp: put_def)
next
  case True
  then have "nat r < length b" by linarith
  then have "b ! nat r \<in> set b" by simp
  then have len: "int (length ((b ! nat r)[nat c := Some v])) = n"
    using assms by (simp add: wf_board_def)
  have "set (b[nat r := (b ! nat r)[nat c := Some v]]) 
      \<subseteq> insert ((b ! nat r)[nat c := Some v]) (set b)"
    by (rule set_update_subset_insert)
  then have "\<forall>cells\<in>set (b[nat r := (b ! nat r)[nat c := Some v]]). int (length cells) = n"
    using assms len unfolding wf_board_def by blast
  then show ?thesis
    using assms True by (simp add: put_def wf_board_def)
qed

lemma at_put:
  assumes "wf_board n b" "inside n r c" "inside n r' c'"
  shows "at (put b r c v) r' c' = (if r' = r \<and> c' = c then Some v else at b r' c')"
proof -
  have r: "0 \<le> r" "r < n" "0 \<le> c" "c < n" and r': "0 \<le> r'" "r' < n" "0 \<le> c'" "c' < n"
    using assms(2,3) by (simp_all add: inside_def)
  note lr = wf_board_nth [OF assms(1) r(1,2)]
  have in_range: "0 \<le> r \<and> r < int (length b) \<and> 0 \<le> c \<and> c < int (length (b ! nat r))"
    using r lr by simp
  have eq_r: "nat r = nat r' \<longleftrightarrow> r' = r" using r r' by auto
  have eq_c: "nat c = nat c' \<longleftrightarrow> c' = c" using r r' by auto
  have cl: "nat c < length (b ! nat r)" using r lr by simp
  show ?thesis
    using in_range lr(1) cl
    by (auto simp: put_def at_def nth_list_update eq_r eq_c)
qed

lemma count_update:
  "j < length xs \<Longrightarrow>
     length (filter P (xs[j := y])) + (if P (xs ! j) then 1 else 0)
       = length (filter P xs) + (if P y then 1 else 0)"
proof (induction xs arbitrary: j)
  case Nil
  then show ?case by simp
next
  case (Cons x xs)
  then show ?case by (cases j) auto
qed

lemma concat_update:
  "i < length xss \<Longrightarrow>
     length (filter P (concat (xss[i := ys]))) + length (filter P (xss ! i))
       = length (filter P (concat xss)) + length (filter P ys)"
proof (induction xss arbitrary: i)
  case Nil
  then show ?case by simp
next
  case (Cons xs xss)
  then show ?case by (cases i) auto
qed

lemma occupied_put:
  assumes "wf_board n b" "inside n r c"
  shows "occupied (put b r c v) = (if at b r c = None then occupied b + 1 else occupied b)"
proof -
  have r: "0 \<le> r" "r < n" "0 \<le> c" "c < n"
    using assms(2) by (simp_all add: inside_def)
  note lr = wf_board_nth [OF assms(1) r(1,2)]
  have cl: "nat c < length (b ! nat r)" using r lr by simp
  have in_range: "0 \<le> r \<and> r < int (length b) \<and> 0 \<le> c \<and> c < int (length (b ! nat r))"
    using r lr by simp
  let ?P = "\<lambda>cell::color option. cell \<noteq> None"
  have "length (filter ?P (concat (b[nat r := (b ! nat r)[nat c := Some v]])))
        + length (filter ?P (b ! nat r))
      = length (filter ?P (concat b)) + length (filter ?P ((b ! nat r)[nat c := Some v]))"
    using lr(1) by (rule concat_update)
  moreover have "length (filter ?P ((b ! nat r)[nat c := Some v]))
        + (if ?P (b ! nat r ! nat c) then 1 else 0)
      = length (filter ?P (b ! nat r)) + (if ?P (Some v) then 1 else 0)"
    using cl by (rule count_update)
  ultimately show ?thesis
    using in_range by (auto simp: occupied_def put_def at_def)
qed

lemma paint_at:
  assumes "wf_board n b" "\<forall>i<m. inside n (r + int i * drow d) (c + int i * dcol d)"
  shows "wf_board n (paint b color r c d m)
     \<and> (\<forall>r' c'. inside n r' c' \<longrightarrow>
          at (paint b color r c d m) r' c' =
            (if \<exists>i<m. r' = r + int i * drow d \<and> c' = c + int i * dcol d
             then Some color else at b r' c'))"
  using assms
proof (induction m arbitrary: b r c)
  case 0
  then show ?case by simp
next
  case (Suc m)
  let ?b = "put b r c color"
  have wf: "wf_board n ?b" using Suc.prems(1) by (rule wf_put)
  have here: "inside n r c" using Suc.prems(2) by force
  have rest: "\<forall>i<m. inside n (r + drow d + int i * drow d) (c + dcol d + int i * dcol d)"
  proof (intro allI impI)
    fix i assume "i < m"
    then have "inside n (r + int (Suc i) * drow d) (c + int (Suc i) * dcol d)"
      using Suc.prems(2) by (meson Suc_mono)
    then show "inside n (r + drow d + int i * drow d) (c + dcol d + int i * dcol d)"
      by (simp add: algebra_simps)
  qed
  note IH = Suc.IH [OF wf rest]
  have ex: "(\<exists>i<Suc m. r' = r + int i * drow d \<and> c' = c + int i * dcol d)
      \<longleftrightarrow> (r' = r \<and> c' = c)
        \<or> (\<exists>i<m. r' = r + drow d + int i * drow d \<and> c' = c + dcol d + int i * dcol d)"
    for r' c'
  proof -
    have "(\<exists>i<Suc m. r' = r + int i * drow d \<and> c' = c + int i * dcol d)
      \<longleftrightarrow> (r' = r + int 0 * drow d \<and> c' = c + int 0 * dcol d)
        \<or> (\<exists>i<m. r' = r + int (Suc i) * drow d \<and> c' = c + int (Suc i) * dcol d)"
      by (metis (no_types, lifting) less_Suc_eq_0_disj)
    then show ?thesis by (simp add: algebra_simps)
  qed
  show ?case
  proof (intro conjI allI impI)
    show "wf_board n (paint b color r c d (Suc m))" using IH by simp
  next
    fix r' c' assume ins: "inside n r' c'"
    have 1: "at (paint ?b color (r + drow d) (c + dcol d) d m) r' c' =
        (if \<exists>i<m. r' = r + drow d + int i * drow d \<and> c' = c + dcol d + int i * dcol d
         then Some color else at ?b r' c')"
      using IH ins by blast
    have 2: "at ?b r' c' = (if r' = r \<and> c' = c then Some color else at b r' c')"
      by (rule at_put [OF Suc.prems(1) here ins])
    show "at (paint b color r c d (Suc m)) r' c' =
        (if \<exists>i<Suc m. r' = r + int i * drow d \<and> c' = c + int i * dcol d
         then Some color else at b r' c')"
      unfolding ex paint.simps 1 2 by auto
  qed
qed

lemma paint_occupied:
  assumes "wf_board n b" "\<forall>i<m. inside n (r + int i * drow d) (c + int i * dcol d)"
    and "\<forall>i<m. at b (r + int i * drow d) (c + int i * dcol d) \<noteq> None"
  shows "occupied (paint b color r c d m) = occupied b"
  using assms
proof (induction m arbitrary: b r c)
  case 0
  then show ?case by simp
next
  case (Suc m)
  let ?b = "put b r c color"
  have wf: "wf_board n ?b" using Suc.prems(1) by (rule wf_put)
  have here: "inside n r c" "at b r c \<noteq> None"
    using Suc.prems(2,3) by force+
  have rest: "inside n (r + drow d + int i * drow d) (c + dcol d + int i * dcol d)
      \<and> at b (r + drow d + int i * drow d) (c + dcol d + int i * dcol d) \<noteq> None"
    if "i < m" for i
  proof -
    from that have "inside n (r + int (Suc i) * drow d) (c + int (Suc i) * dcol d)
        \<and> at b (r + int (Suc i) * drow d) (c + int (Suc i) * dcol d) \<noteq> None"
      using Suc.prems(2,3) by (meson Suc_mono)
    then show ?thesis by (simp add: algebra_simps)
  qed
  have "occupied (paint ?b color (r + drow d) (c + dcol d) d m) = occupied ?b"
  proof (rule Suc.IH [OF wf])
    show "\<forall>i<m. inside n (r + drow d + int i * drow d) (c + dcol d + int i * dcol d)"
      using rest by blast
    show "\<forall>i<m. at ?b (r + drow d + int i * drow d) (c + dcol d + int i * dcol d) \<noteq> None"
      using rest by (simp add: at_put [OF Suc.prems(1) here(1)])
  qed
  also have "occupied ?b = occupied b"
    using here(2) by (simp add: occupied_put [OF Suc.prems(1) here(1)])
  finally show ?case by simp
qed

section \<open>The closures of an accepted move\<close>

lemma within_closure_of:
  "within (closure_of coords d k) r c \<longleftrightarrow>
     (\<exists>i<k + 2. r = row coords + int i * drow d \<and> c = col coords + int i * dcol d)"
proof -
  have "i \<le> k + 1 \<longleftrightarrow> i < k + 2" for i by auto
  then show ?thesis by (simp add: within_def closure_of_def)
qed

lemma flipped_closure_of:
  "flipped (closure_of coords d k) r c \<longleftrightarrow>
     (\<exists>i. 1 \<le> i \<and> i \<le> k \<and> r = row coords + int i * drow d \<and> c = col coords + int i * dcol d)"
  by (simp add: flipped_def closure_of_def)

lemma run_cells:
  assumes "run n b color r c d k" "1 \<le> i" "i \<le> k + 1"
  shows "inside n (r + int i * drow d) (c + int i * dcol d)"
    and "at b (r + int i * drow d) (c + int i * dcol d)
           = Some (if i \<le> k then other color else color)"
proof -
  have "inside n (r + int i * drow d) (c + int i * dcol d)
     \<and> at b (r + int i * drow d) (c + int i * dcol d)
           = Some (if i \<le> k then other color else color)"
  proof (cases "i \<le> k")
    case True
    then have "i \<in> {1..k}" using assms(2) by simp
    then show ?thesis using assms(1) True unfolding run_def by auto
  next
    case False
    then have "int i = int k + 1" using assms(3) by simp
    then show ?thesis using assms(1) False unfolding run_def by simp
  qed
  then show "inside n (r + int i * drow d) (c + int i * dcol d)"
    and "at b (r + int i * drow d) (c + int i * dcol d)
           = Some (if i \<le> k then other color else color)"
    by simp_all
qed

lemma closures_of_move:
  assumes "inside n (row coords) (col coords)"
    and "validateMove n b coords color = Some closures" and "cl \<in> set closures"
  shows "\<exists>d k. 1 \<le> k \<and> run n b color (row coords) (col coords) d k \<and> cl = closure_of coords d k"
proof -
  from assms(2,3) have "cl \<in> set (getClosures n b color coords)"
    by (simp add: validateMove_Some)
  then obtain d where "checkForClosure n b color coords d = Some cl"
    unfolding set_getClosures by blast
  then show ?thesis
    unfolding checkForClosure_iff [OF assms(1)] by blast
qed

lemma flip_closures_at:
  assumes "wf_board n b0"
    and "\<forall>cl\<in>set cls. \<exists>d k. cl = closure_of coords d k
           \<and> (\<forall>i<k + 2. inside n (row coords + int i * drow d) (col coords + int i * dcol d))"
  shows "wf_board n (flip_closures b0 cls color)
     \<and> (\<forall>r c. inside n r c \<longrightarrow>
          at (flip_closures b0 cls color) r c =
            (if \<exists>cl\<in>set cls. within cl r c then Some color else at b0 r c))"
  using assms
proof (induction cls arbitrary: b0)
  case Nil
  then show ?case by simp
next
  case (Cons cl cls)
  from Cons.prems(2) obtain d k where cl: "cl = closure_of coords d k"
    and ins: "\<forall>i<k + 2. inside n (row coords + int i * drow d) (col coords + int i * dcol d)"
    by auto
  let ?b = "paint b0 color (row coords) (col coords) d (k + 2)"
  have step: "flip_closures b0 (cl # cls) color = flip_closures ?b cls color"
    by (simp add: cl flipPieces_closure del: paint.simps)
  note P = paint_at [OF Cons.prems(1) ins, of color]
  have rest: "\<forall>cl\<in>set cls. \<exists>d k. cl = closure_of coords d k
           \<and> (\<forall>i<k + 2. inside n (row coords + int i * drow d) (col coords + int i * dcol d))"
    using Cons.prems(2) by simp
  note IH = Cons.IH [OF conjunct1 [OF P] rest]
  show ?case
  proof (intro conjI allI impI)
    show "wf_board n (flip_closures b0 (cl # cls) color)"
      unfolding step using IH by blast
  next
    fix r c assume rc: "inside n r c"
    have 1: "at (flip_closures ?b cls color) r c =
        (if \<exists>cl\<in>set cls. within cl r c then Some color else at ?b r c)"
      using IH rc by blast
    have 2: "at ?b r c = (if within cl r c then Some color else at b0 r c)"
      using P rc unfolding cl within_closure_of by blast
    show "at (flip_closures b0 (cl # cls) color) r c =
        (if \<exists>cl\<in>set (cl # cls). within cl r c then Some color else at b0 r c)"
      unfolding step 1 2 by auto
  qed
qed

lemma flip_closures_occupied:
  assumes "wf_board n b0"
    and "\<forall>cl\<in>set cls. \<exists>d k. cl = closure_of coords d k
           \<and> (\<forall>i<k + 2. inside n (row coords + int i * drow d) (col coords + int i * dcol d)
                \<and> at b0 (row coords + int i * drow d) (col coords + int i * dcol d) \<noteq> None)"
  shows "occupied (flip_closures b0 cls color) = occupied b0"
  using assms
proof (induction cls arbitrary: b0)
  case Nil
  then show ?case by simp
next
  case (Cons cl cls)
  from Cons.prems(2) obtain d k where cl: "cl = closure_of coords d k"
    and ins: "\<forall>i<k + 2. inside n (row coords + int i * drow d) (col coords + int i * dcol d)"
    and occ: "\<forall>i<k + 2. at b0 (row coords + int i * drow d) (col coords + int i * dcol d) \<noteq> None"
    by auto
  let ?b = "paint b0 color (row coords) (col coords) d (k + 2)"
  have step: "flip_closures b0 (cl # cls) color = flip_closures ?b cls color"
    by (simp add: cl flipPieces_closure del: paint.simps)
  note P = paint_at [OF Cons.prems(1) ins, of color]
  have keep: "at ?b r c \<noteq> None" if "inside n r c" "at b0 r c \<noteq> None" for r c
    using P that by auto
  have rest: "\<forall>cl\<in>set cls. \<exists>d k. cl = closure_of coords d k
           \<and> (\<forall>i<k + 2. inside n (row coords + int i * drow d) (col coords + int i * dcol d)
                \<and> at ?b (row coords + int i * drow d) (col coords + int i * dcol d) \<noteq> None)"
  proof
    fix cl' assume "cl' \<in> set cls"
    with Cons.prems(2) obtain d' k' where "cl' = closure_of coords d' k'"
      and "\<forall>i<k' + 2. inside n (row coords + int i * drow d') (col coords + int i * dcol d')
                \<and> at b0 (row coords + int i * drow d') (col coords + int i * dcol d') \<noteq> None"
      by auto
    then show "\<exists>d k. cl' = closure_of coords d k
           \<and> (\<forall>i<k + 2. inside n (row coords + int i * drow d) (col coords + int i * dcol d)
                \<and> at ?b (row coords + int i * drow d) (col coords + int i * dcol d) \<noteq> None)"
      using keep by blast
  qed
  have "occupied (flip_closures ?b cls color) = occupied ?b"
    by (rule Cons.IH [OF conjunct1 [OF P] rest])
  also have "occupied ?b = occupied b0"
    by (rule paint_occupied [OF Cons.prems(1) ins occ])
  finally show ?case unfolding step .
qed

section \<open>The board after an accepted move\<close>

lemma board_play_move:
  assumes "validateMove n (board g) move (curPlayer g) = Some closures"
  shows "board (snd (play_move n g move)) =
     flip_closures (put (board g) (row move) (col move) (curPlayer g)) closures (curPlayer g)"
  using assms by (simp add: play_move_def Let_def)

lemma move_closures:
  assumes "wf_board n b" and "inside n (row coords) (col coords)"
    and "validateMove n b coords color = Some closures" and "cl \<in> set closures"
  shows "\<exists>d k. cl = closure_of coords d k \<and> 1 \<le> k
    \<and> run n b color (row coords) (col coords) d k
    \<and> (\<forall>i<k + 2. inside n (row coords + int i * drow d) (col coords + int i * dcol d)
        \<and> at (put b (row coords) (col coords) color)
             (row coords + int i * drow d) (col coords + int i * dcol d) \<noteq> None)"
proof -
  from closures_of_move [OF assms(2,3,4)] obtain d k where k: "1 \<le> k"
    and run: "run n b color (row coords) (col coords) d k" and cl: "cl = closure_of coords d k"
    by blast
  have "inside n (row coords + int i * drow d) (col coords + int i * dcol d)
        \<and> at (put b (row coords) (col coords) color)
             (row coords + int i * drow d) (col coords + int i * dcol d) \<noteq> None"
    if "i < k + 2" for i
  proof (cases "i = 0")
    case True
    then show ?thesis using assms(1,2) by (simp add: at_put)
  next
    case False
    then have i: "1 \<le> i" "i \<le> k + 1" using that by simp_all
    note rc = run_cells [OF run i]
    show ?thesis using rc by (simp add: at_put [OF assms(1,2) rc(1)])
  qed
  with cl k run show ?thesis by blast
qed

text \<open>
  C2. For an accepted move (the piece placed, then \<^verbatim>\<open>flipPieces\<close> run on each of its
  closures): afterwards every cell within one of the closures, from its start to its end,
  holds the mover's color, as does the placed cell; every cell of the board that is not the
  placed cell and not strictly inside a closure holds what it held before. Each closure
  starts at the placed cell, flips at least one cell, ends one step past its last flipped
  cell, and lies on the board.
\<close>

theorem play_move_flips:
  assumes "wf_board n (board g)" and "inside n (row move) (col move)"
    and "validateMove n (board g) move (curPlayer g) = Some closures"
  shows "(\<forall>cl\<in>set closures. \<forall>r c. within cl r c \<longrightarrow>
            at (board (snd (play_move n g move))) r c = Some (curPlayer g))
     \<and> at (board (snd (play_move n g move))) (row move) (col move) = Some (curPlayer g)
     \<and> (\<forall>r c. inside n r c \<and> (r, c) \<noteq> (row move, col move)
            \<and> (\<forall>cl\<in>set closures. \<not> flipped cl r c) \<longrightarrow>
            at (board (snd (play_move n g move))) r c = at (board g) r c)
     \<and> (\<forall>cl\<in>set closures.
            cl_start cl = (col move, row move) \<and> 1 \<le> cl_flipCount cl
            \<and> cl_end cl = (col move + (int (cl_flipCount cl) + 1) * dcol (cl_direction cl),
                           row move + (int (cl_flipCount cl) + 1) * drow (cl_direction cl))
            \<and> (\<forall>r c. within cl r c \<longrightarrow> inside n r c))"
proof -
  let ?b = "board g" and ?color = "curPlayer g"
  let ?b1 = "put ?b (row move) (col move) ?color"
  let ?b2 = "flip_closures ?b1 closures ?color"
  have b2: "board (snd (play_move n g move)) = ?b2"
    by (rule board_play_move [OF assms(3)])
  have wf1: "wf_board n ?b1" using assms(1) by (rule wf_put)
  have good: "\<forall>cl\<in>set closures. \<exists>d k. cl = closure_of move d k
       \<and> (\<forall>i<k + 2. inside n (row move + int i * drow d) (col move + int i * dcol d))"
  proof
    fix cl assume "cl \<in> set closures"
    from move_closures [OF assms this] obtain d k where "cl = closure_of move d k"
      and "\<forall>i<k + 2. inside n (row move + int i * drow d) (col move + int i * dcol d)
        \<and> at (put (board g) (row move) (col move) (curPlayer g))
             (row move + int i * drow d) (col move + int i * dcol d) \<noteq> None"
      by blast
    then show "\<exists>d k. cl = closure_of move d k
       \<and> (\<forall>i<k + 2. inside n (row move + int i * drow d) (col move + int i * dcol d))"
      by blast
  qed
  have at2: "at ?b2 r c = (if \<exists>cl\<in>set closures. within cl r c then Some ?color else at ?b1 r c)"
    if "inside n r c" for r c
    using flip_closures_at [OF wf1 good, of ?color] that by blast
  have on_board: "inside n r c" if "cl \<in> set closures" "within cl r c" for cl r c
  proof -
    from good that(1) obtain d k where "cl = closure_of move d k"
      and "\<forall>i<k + 2. inside n (row move + int i * drow d) (col move + int i * dcol d)"
      by blast
    with that(2) show ?thesis by (auto simp: within_closure_of)
  qed
  have 1: "\<forall>cl\<in>set closures. \<forall>r c. within cl r c \<longrightarrow> at ?b2 r c = Some ?color"
  proof (intro ballI allI impI)
    fix cl r c assume cl: "cl \<in> set closures" "within cl r c"
    then have "\<exists>cl\<in>set closures. within cl r c" by blast
    then show "at ?b2 r c = Some ?color"
      using at2 [OF on_board [OF cl]] by simp
  qed
  have 2: "at ?b2 (row move) (col move) = Some ?color"
    using at2 [OF assms(2)] at_put [OF assms(1,2,2)] by simp
  have 3: "at ?b2 r c = at ?b r c"
    if rc: "inside n r c" and ne: "(r, c) \<noteq> (row move, col move)"
      and nf: "\<forall>cl\<in>set closures. \<not> flipped cl r c" for r c
  proof (cases "\<exists>cl\<in>set closures. within cl r c")
    case False
    then show ?thesis using at2 [OF rc] at_put [OF assms(1,2) rc] ne by auto
  next
    case True
    then obtain cl where cl: "cl \<in> set closures" "within cl r c" by blast
    from move_closures [OF assms cl(1)] obtain d k where clk: "cl = closure_of move d k"
      and run: "run n ?b ?color (row move) (col move) d k" by blast
    from cl(2) obtain i where i: "i < k + 2"
      "r = row move + int i * drow d" "c = col move + int i * dcol d"
      unfolding clk within_closure_of by blast
    have "i \<noteq> 0" using ne i by auto
    moreover have "\<not> flipped (closure_of move d k) r c"
      using nf cl(1) clk by blast
    then have "\<not> (1 \<le> i \<and> i \<le> k)"
      using i(2,3) by (auto simp: flipped_closure_of)
    ultimately have "1 \<le> i" "i \<le> k + 1" "\<not> i \<le> k" using i(1) by simp_all
    from run_cells(2) [OF run this(1,2)] this(3) have "at ?b r c = Some ?color"
      by (simp add: i)
    then show ?thesis using at2 [OF rc] True by simp
  qed
  have 4: "\<forall>cl\<in>set closures.
            cl_start cl = (col move, row move) \<and> 1 \<le> cl_flipCount cl
            \<and> cl_end cl = (col move + (int (cl_flipCount cl) + 1) * dcol (cl_direction cl),
                           row move + (int (cl_flipCount cl) + 1) * drow (cl_direction cl))
            \<and> (\<forall>r c. within cl r c \<longrightarrow> inside n r c)"
  proof
    fix cl assume cl: "cl \<in> set closures"
    from move_closures [OF assms cl] obtain d k where "cl = closure_of move d k" "1 \<le> k"
      by blast
    then show "cl_start cl = (col move, row move) \<and> 1 \<le> cl_flipCount cl
            \<and> cl_end cl = (col move + (int (cl_flipCount cl) + 1) * dcol (cl_direction cl),
                           row move + (int (cl_flipCount cl) + 1) * drow (cl_direction cl))
            \<and> (\<forall>r c. within cl r c \<longrightarrow> inside n r c)"
      using on_board [OF cl] by (simp add: closure_of_def)
  qed
  show ?thesis
    unfolding b2
  proof (intro conjI)
    show "\<forall>cl\<in>set closures. \<forall>r c. within cl r c \<longrightarrow> at ?b2 r c = Some ?color"
      by (rule 1)
    show "at ?b2 (row move) (col move) = Some ?color" by (rule 2)
    show "\<forall>r c. inside n r c \<and> (r, c) \<noteq> (row move, col move)
            \<and> (\<forall>cl\<in>set closures. \<not> flipped cl r c) \<longrightarrow> at ?b2 r c = at ?b r c"
      using 3 by blast
    show "\<forall>cl\<in>set closures.
            cl_start cl = (col move, row move) \<and> 1 \<le> cl_flipCount cl
            \<and> cl_end cl = (col move + (int (cl_flipCount cl) + 1) * dcol (cl_direction cl),
                           row move + (int (cl_flipCount cl) + 1) * drow (cl_direction cl))
            \<and> (\<forall>r c. within cl r c \<longrightarrow> inside n r c)"
      by (rule 4)
  qed
qed

text \<open>
  C4. For an accepted move the number of occupied cells afterwards is the number before
  plus 1: the target cell was empty and is now occupied, and every other cell of the board is
  occupied afterwards exactly if it was before. The flips alone, run on the board with the
  piece placed, change neither the number of occupied cells nor which cells are occupied.
\<close>

theorem play_move_occupied:
  assumes "wf_board n (board g)" and "inside n (row move) (col move)"
    and "validateMove n (board g) move (curPlayer g) = Some closures"
  shows "occupied (board (snd (play_move n g move))) = occupied (board g) + 1
     \<and> at (board g) (row move) (col move) = None
     \<and> at (board (snd (play_move n g move))) (row move) (col move) \<noteq> None
     \<and> (\<forall>r c. inside n r c \<and> (r, c) \<noteq> (row move, col move) \<longrightarrow>
           (at (board (snd (play_move n g move))) r c = None \<longleftrightarrow> at (board g) r c = None))
     \<and> occupied (flip_closures (put (board g) (row move) (col move) (curPlayer g))
                   closures (curPlayer g))
         = occupied (put (board g) (row move) (col move) (curPlayer g))
     \<and> (\<forall>r c. inside n r c \<longrightarrow>
           (at (flip_closures (put (board g) (row move) (col move) (curPlayer g))
                  closures (curPlayer g)) r c = None
            \<longleftrightarrow> at (put (board g) (row move) (col move) (curPlayer g)) r c = None))"
proof -
  let ?b = "board g" and ?color = "curPlayer g"
  let ?b1 = "put ?b (row move) (col move) ?color"
  let ?b2 = "flip_closures ?b1 closures ?color"
  have b2: "board (snd (play_move n g move)) = ?b2"
    by (rule board_play_move [OF assms(3)])
  have wf1: "wf_board n ?b1" using assms(1) by (rule wf_put)
  have empty: "at ?b (row move) (col move) = None"
    using assms(3) by (simp add: validateMove_Some)
  have good: "\<forall>cl\<in>set closures. \<exists>d k. cl = closure_of move d k
       \<and> (\<forall>i<k + 2. inside n (row move + int i * drow d) (col move + int i * dcol d)
            \<and> at ?b1 (row move + int i * drow d) (col move + int i * dcol d) \<noteq> None)"
  proof
    fix cl assume "cl \<in> set closures"
    from move_closures [OF assms this] show "\<exists>d k. cl = closure_of move d k
       \<and> (\<forall>i<k + 2. inside n (row move + int i * drow d) (col move + int i * dcol d)
            \<and> at ?b1 (row move + int i * drow d) (col move + int i * dcol d) \<noteq> None)"
      by blast
  qed
  then have good': "\<forall>cl\<in>set closures. \<exists>d k. cl = closure_of move d k
       \<and> (\<forall>i<k + 2. inside n (row move + int i * drow d) (col move + int i * dcol d))"
    by fast
  have at2: "at ?b2 r c = (if \<exists>cl\<in>set closures. within cl r c then Some ?color else at ?b1 r c)"
    if "inside n r c" for r c
    using flip_closures_at [OF wf1 good', of ?color] that by blast
  have same: "at ?b2 r c = None \<longleftrightarrow> at ?b1 r c = None" if rc: "inside n r c" for r c
  proof (cases "\<exists>cl\<in>set closures. within cl r c")
    case False
    then show ?thesis using at2 [OF rc] by simp
  next
    case True
    then obtain cl where cl: "cl \<in> set closures" "within cl r c" by blast
    with good obtain d k where "cl = closure_of move d k"
      and "\<forall>i<k + 2. at ?b1 (row move + int i * drow d) (col move + int i * dcol d) \<noteq> None"
      by blast
    with cl(2) have "at ?b1 r c \<noteq> None" by (auto simp: within_closure_of)
    then show ?thesis using at2 [OF rc] True by simp
  qed
  have flips: "occupied ?b2 = occupied ?b1"
    by (rule flip_closures_occupied [OF wf1 good])
  have placed: "occupied ?b1 = occupied ?b + 1"
    using empty by (simp add: occupied_put [OF assms(1,2)])
  have 3: "at ?b2 (row move) (col move) \<noteq> None"
    using same [OF assms(2)] at_put [OF assms(1,2,2)] by simp
  have 4: "at ?b2 r c = None \<longleftrightarrow> at ?b r c = None"
    if "inside n r c" "(r, c) \<noteq> (row move, col move)" for r c
    using same [OF that(1)] at_put [OF assms(1,2) that(1)] that(2) by auto
  show ?thesis
    unfolding b2
  proof (intro conjI)
    show "occupied ?b2 = occupied ?b + 1" using flips placed by simp
    show "at ?b (row move) (col move) = None" by (rule empty)
    show "at ?b2 (row move) (col move) \<noteq> None" by (rule 3)
    show "\<forall>r c. inside n r c \<and> (r, c) \<noteq> (row move, col move) \<longrightarrow>
           (at ?b2 r c = None \<longleftrightarrow> at ?b r c = None)"
      using 4 by blast
    show "occupied ?b2 = occupied ?b1" by (rule flips)
    show "\<forall>r c. inside n r c \<longrightarrow> (at ?b2 r c = None \<longleftrightarrow> at ?b1 r c = None)"
      using same by blast
  qed
qed

lemma readme_game_simps:
  "board readme_game = readme_board" "curPlayer readme_game = BLACK"
  by (simp_all add: readme_game_def)

theorem play_move_flips_witness:
  "wf_board 8 (board readme_game) \<and> inside 8 5 6
   \<and> validateMove 8 (board readme_game) (Coordinate 5 6) (curPlayer readme_game) =
       Some [\<lparr>cl_direction = Left, cl_start = (6, 5), cl_end = (1, 5), cl_flipCount = 4\<rparr>,
             \<lparr>cl_direction = LeftUp, cl_start = (6, 5), cl_end = (4, 3), cl_flipCount = 1\<rparr>]
   \<and> at (board (snd (play_move 8 readme_game (Coordinate 5 6)))) 5 2 = Some BLACK
   \<and> at (board (snd (play_move 8 readme_game (Coordinate 5 6)))) 5 3 = Some BLACK
   \<and> at (board (snd (play_move 8 readme_game (Coordinate 5 6)))) 5 4 = Some BLACK
   \<and> at (board (snd (play_move 8 readme_game (Coordinate 5 6)))) 5 5 = Some BLACK
   \<and> at (board (snd (play_move 8 readme_game (Coordinate 5 6)))) 4 5 = Some BLACK
   \<and> at (board (snd (play_move 8 readme_game (Coordinate 5 6)))) 5 6 = Some BLACK
   \<and> at (board (snd (play_move 8 readme_game (Coordinate 5 6)))) 4 3 = at readme_board 4 3
   \<and> at (board (snd (play_move 8 readme_game (Coordinate 5 6)))) 6 6 = at readme_board 6 6"
proof -
  let ?l = "\<lparr>cl_direction = Left, cl_start = (6, 5), cl_end = (1, 5), cl_flipCount = 4\<rparr>"
  let ?u = "\<lparr>cl_direction = LeftUp, cl_start = (6, 5), cl_end = (4, 3), cl_flipCount = 1\<rparr>"
  let ?b = "board (snd (play_move 8 readme_game (Coordinate 5 6)))"
  have wf: "wf_board 8 (board readme_game)"
    by (simp add: readme_game_simps wf_readme_board)
  have ins: "inside 8 (row (Coordinate 5 6)) (col (Coordinate 5 6))"
    by (simp add: inside_def)
  have v: "validateMove 8 (board readme_game) (Coordinate 5 6) (curPlayer readme_game)
      = Some [?l, ?u]"
    by (simp only: readme_game_simps validateMove_readme_g6)
  note T = play_move_flips [OF wf ins v]
  have W: "at ?b r c = Some BLACK" if "within ?l r c \<or> within ?u r c" for r c
    using T that by (auto simp: readme_game_simps)
  have K: "at ?b r c = at readme_board r c"
    if "inside 8 r c" "(r, c) \<noteq> (5, 6)" "\<not> flipped ?l r c" "\<not> flipped ?u r c" for r c
    using T that by (auto simp: readme_game_simps)
  have l: "within ?l 5 (6 - int i)" if "i \<le> 5" for i
    unfolding within_def using that by (intro exI [of _ i]) simp
  have u: "within ?u (5 - int i) (6 - int i)" if "i \<le> 2" for i
    unfolding within_def using that by (intro exI [of _ i]) simp
  have "at ?b 5 2 = Some BLACK" using W l [of 4] by simp
  moreover have "at ?b 5 3 = Some BLACK" using W l [of 3] by simp
  moreover have "at ?b 5 4 = Some BLACK" using W l [of 2] by simp
  moreover have "at ?b 5 5 = Some BLACK" using W l [of 1] by simp
  moreover have "at ?b 4 5 = Some BLACK" using W u [of 1] by simp
  moreover have "at ?b 5 6 = Some BLACK" using W l [of 0] by simp
  moreover have "at ?b 4 3 = at readme_board 4 3"
    by (rule K) (auto simp: inside_def flipped_def)
  moreover have "at ?b 6 6 = at readme_board 6 6"
    by (rule K) (auto simp: inside_def flipped_def)
  ultimately show ?thesis
    using wf ins v by simp
qed

lemma occupied_readme_board: "occupied readme_board = 18"
  by (simp add: occupied_def readme_board_def)

theorem play_move_occupied_witness:
  "wf_board 8 (board readme_game) \<and> inside 8 5 6
   \<and> validateMove 8 (board readme_game) (Coordinate 5 6) (curPlayer readme_game) =
       Some [\<lparr>cl_direction = Left, cl_start = (6, 5), cl_end = (1, 5), cl_flipCount = 4\<rparr>,
             \<lparr>cl_direction = LeftUp, cl_start = (6, 5), cl_end = (4, 3), cl_flipCount = 1\<rparr>]
   \<and> occupied (board readme_game) = 18
   \<and> occupied (board (snd (play_move 8 readme_game (Coordinate 5 6)))) = 19
   \<and> at (board readme_game) 5 6 = None
   \<and> at (board (snd (play_move 8 readme_game (Coordinate 5 6)))) 5 6 \<noteq> None"
proof -
  have wf: "wf_board 8 (board readme_game)"
    by (simp add: readme_game_simps wf_readme_board)
  have ins: "inside 8 (row (Coordinate 5 6)) (col (Coordinate 5 6))"
    by (simp add: inside_def)
  have v: "validateMove 8 (board readme_game) (Coordinate 5 6) (curPlayer readme_game)
      = Some [\<lparr>cl_direction = Left, cl_start = (6, 5), cl_end = (1, 5), cl_flipCount = 4\<rparr>,
             \<lparr>cl_direction = LeftUp, cl_start = (6, 5), cl_end = (4, 3), cl_flipCount = 1\<rparr>]"
    by (simp only: readme_game_simps validateMove_readme_g6)
  show ?thesis
    using play_move_occupied [OF wf ins v] wf ins v
    by (simp add: readme_game_simps occupied_readme_board)
qed

section \<open>Coordinates read from text\<close>

text \<open>
  C6. On the 8 by 8 board \<^verbatim>\<open>"a9"\<close> is accepted, as the coordinate of row 8 (the ninth
  row), and so is \<^verbatim>\<open>"ax"\<close>, with the row \<^verbatim>\<open>NaN\<close>: the test that throws
  \<^verbatim>\<open>Row out of bounds\<close> compares \<^verbatim>\<open>col\<close>, not \<^verbatim>\<open>row\<close>, with the size. The first
  and last cells parse as they should, and a column past the board is refused.
\<close>

theorem parseCoordinate_row_unchecked:
  "parseCoordinate 8 ''a9'' = Inr \<lparr>p_row = Some 8, p_col = 0\<rparr>
   \<and> parseCoordinate 8 ''ax'' = Inr \<lparr>p_row = None, p_col = 0\<rparr>
   \<and> parseCoordinate 8 ''a1'' = Inr \<lparr>p_row = Some 0, p_col = 0\<rparr>
   \<and> parseCoordinate 8 ''h8'' = Inr \<lparr>p_row = Some 7, p_col = 7\<rparr>
   \<and> parseCoordinate 8 ''i1'' = Inl (CoordinateParseException ''Column out of bounds'')"
  by code_simp

section \<open>The move drawn automatically\<close>

lemma bestMoves_loop_all: "bestMoves_loop validMoves bestMove bestMoves = bestMoves @ validMoves"
  by (induction validMoves arbitrary: bestMove bestMoves) (simp_all add: flipCount_of_def js_gt_def)

text \<open>
  C5. On the board of the README's example, Black to move and the index 0 drawn, the
  automatic move is (1, 2), which flips one piece, while the legal move (5, 6) flips five:
  the move chosen is not among those of maximal total flip count. Whatever the board, the
  list the move is drawn from is the list of all legal moves with its first move repeated.
\<close>

theorem autoMove_not_maximal:
  "autoMove 8 readme_board BLACK 0 = Inr (Coordinate 1 2)
   \<and> totalFlips 8 readme_board BLACK (Coordinate 1 2) = 1
   \<and> validateMove 8 readme_board (Coordinate 5 6) BLACK \<noteq> None
   \<and> totalFlips 8 readme_board BLACK (Coordinate 5 6) = 5
   \<and> bestMoves_loop validMoves bestMove [bestMove] = bestMove # validMoves"
proof -
  have "autoMove 8 readme_board BLACK 0 = Inr (Coordinate 1 2)" by code_simp
  moreover have "totalFlips 8 readme_board BLACK (Coordinate 1 2) = 1" by code_simp
  moreover have "totalFlips 8 readme_board BLACK (Coordinate 5 6) = 5" by code_simp
  ultimately show ?thesis
    by (simp add: validateMove_readme_g6 bestMoves_loop_all)
qed

end
